theory Spec2Isabelle
  imports Main "HOL-Library.Sublist" "HOL-Library.AList"
begin

section \<open>Python strings\<close>

text \<open>
  A Python \<open>bytes\<close> value is a list of \<open>char\<close> (Isabelle's \<open>char\<close> is one byte). A Python
  \<open>str\<close> is modelled by its UTF-8 encoding, again a list of \<open>char\<close>: the ASCII code points
  are the chars below 128, and the operations below act on ASCII code points only. No code
  point outside ASCII lowercases to \<open>b\<close>, \<open>y\<close>, \<open>e\<close>, \<open>g\<close>, \<open>o\<close> or \<open>d\<close>, and the UTF-8
  encoding of such a code point has no byte below 128, so the substring tests of the scripts
  have the same result on the encoding as on the code points.
\<close>

definition lower_char :: "char \<Rightarrow> char" where
  "lower_char c =
     (if (65::nat) \<le> of_char c \<and> of_char c \<le> (90::nat) then char_of (of_char c + (32::nat)) else c)"

text \<open>\<open>s.lower()\<close>\<close>

definition lower :: "string \<Rightarrow> string" where
  "lower s = map lower_char s"

text \<open>\<open>s.startswith(p)\<close> and \<open>s.endswith(p)\<close>\<close>

definition startswith :: "string \<Rightarrow> string \<Rightarrow> bool" where
  "startswith s p = (take (length p) s = p)"

definition endswith :: "string \<Rightarrow> string \<Rightarrow> bool" where
  "endswith s p = (length p \<le> length s \<and> drop (length s - length p) s = p)"

text \<open>\<open>p in s\<close> for two strings: some position of \<open>s\<close> starts with \<open>p\<close>.\<close>

fun contains :: "string \<Rightarrow> string \<Rightarrow> bool" where
  "contains [] p = (p = [])"
| "contains (c # cs) p = (startswith (c # cs) p \<or> contains cs p)"

section \<open>Transport requests and the termination rule\<close>

text \<open>
  Every call of the scripts that reaches the network or the clock is recorded, in order, in a
  trace. \<open>PostMessage text name\<close> is \<open>api_post("/api/agent-message", ...)\<close>: the polling
  script sends the agent name with it, the streaming script does not.
\<close>

datatype io =
    Sleep nat
  | GetStatus
  | PostRegister string
  | PostMessage string "string option"
  | GetMessages int
  | GetEvents string

text \<open>How a run of a script stands: still in its loop, returned from \<open>main\<close>, left by
  \<open>sys.exit\<close>, or ended by an exception that nothing catches. The exceptions are those the
  scripts can meet: \<open>KeyError\<close> and \<open>AttributeError\<close> from reading a decoded value, and the
  three that \<open>json.loads\<close> raises.\<close>

datatype py_error = KeyError | AttributeError | JSONDecodeError | RecursionError | ValueError

datatype outcome = Running | Returned | SysExit int | Uncaught py_error

text \<open>The test of both scripts:
  \<open>"goodbye" in text.lower() or "bye" in text.lower()\<close>\<close>

definition is_farewell :: "string \<Rightarrow> bool" where
  "is_farewell t = (contains (lower t) ''goodbye'' \<or> contains (lower t) ''bye'')"

section \<open>Polling mode (agent-chat-poll.py)\<close>

text \<open>
  The transport boundary is typed by the response shapes the script reads: a message has the
  keys \<open>from\<close>, \<open>text\<close> and \<open>timestamp\<close>; the result of a fetch has \<open>success\<close> (read with
  \<open>.get\<close>, so an absent key counts as false) and, optionally, \<open>messages\<close>. Console output and
  the keyboard interrupt are not modelled.
\<close>

record message =
  m_from :: string
  m_text :: string
  m_timestamp :: int

record poll_result =
  pr_success :: bool
  pr_messages :: "message list option"

text \<open>\<open>poll_messages\<close>, given the result of its \<open>api_get\<close>\<close>

definition poll_messages :: "poll_result \<Rightarrow> message list" where
  "poll_messages result =
     (if \<not> pr_success result then []
      else filter (\<lambda>m. m_from m = ''user'')
             (case pr_messages result of None \<Rightarrow> [] | Some ms \<Rightarrow> ms))"

text \<open>
  The state of \<open>main\<close>'s loop: the cursor \<open>last_ts\<close>, the trace of requests and waits, and
  the messages on which the body of the \<open>for\<close> loop has run (the messages dispatched).
\<close>

record poll_state =
  last_ts :: int
  trace :: "io list"
  dispatched :: "message list"

definition POLL_INTERVAL :: nat where
  "POLL_INTERVAL = 2"

definition send_message :: "string \<Rightarrow> string \<Rightarrow> poll_state \<Rightarrow> poll_state" where
  "send_message t name st = st\<lparr>trace := trace st @ [PostMessage t (Some name)]\<rparr>"

definition register :: "string \<Rightarrow> poll_state \<Rightarrow> poll_state" where
  "register name st = st\<lparr>trace := trace st @ [PostRegister name]\<rparr>"

text \<open>The body of \<open>for msg in new_msgs\<close> (lines 109 to 117)\<close>

definition poll_handle :: "string \<Rightarrow> message \<Rightarrow> poll_state \<Rightarrow> outcome \<times> poll_state" where
  "poll_handle name msg st =
     (let st1 = st\<lparr>last_ts := m_timestamp msg, dispatched := dispatched st @ [msg]\<rparr>
      in if is_farewell (m_text msg)
         then (Returned, send_message ''Goodbye! Disconnecting.'' name st1)
         else (Running, send_message (''Received: '' @ m_text msg) name st1))"

fun for_msgs :: "string \<Rightarrow> message list \<Rightarrow> poll_state \<Rightarrow> outcome \<times> poll_state" where
  "for_msgs name [] st = (Running, st)"
| "for_msgs name (msg # rest) st =
     (case poll_handle name msg st of
        (Running, st') \<Rightarrow> for_msgs name rest st'
      | (out, st') \<Rightarrow> (out, st'))"

text \<open>
  The remote application answers the fetch of cycle \<open>k\<close> with parameter \<open>since\<close> by
  \<open>remote k since\<close>. One cycle of \<open>while True\<close> waits, fetches with the cursor and runs the
  \<open>for\<close> loop; \<open>poll_loop remote name k n\<close> runs the cycles \<open>k, ..., k + n - 1\<close> and is
  \<open>Running\<close> when the loop has not returned by then.
\<close>

type_synonym remote = "nat \<Rightarrow> int \<Rightarrow> poll_result"

definition poll_cycle :: "remote \<Rightarrow> string \<Rightarrow> nat \<Rightarrow> poll_state \<Rightarrow> outcome \<times> poll_state" where
  "poll_cycle remote name k st =
     for_msgs name (poll_messages (remote k (last_ts st)))
       (st\<lparr>trace := trace st @ [Sleep POLL_INTERVAL, GetMessages (last_ts st)]\<rparr>)"

fun poll_loop :: "remote \<Rightarrow> string \<Rightarrow> nat \<Rightarrow> nat \<Rightarrow> poll_state \<Rightarrow> outcome \<times> poll_state" where
  "poll_loop remote name k 0 st = (Running, st)"
| "poll_loop remote name k (Suc n) st =
     (case poll_cycle remote name k st of
        (Running, st') \<Rightarrow> poll_loop remote name (Suc k) n st'
      | (out, st') \<Rightarrow> (out, st'))"

subsection \<open>Bootstrap\<close>

record status_info =
  filePath :: "string option"
  totalLines :: "int option"

record status_result =
  sr_success :: bool
  sr_status :: "status_info option"

text \<open>\<open>check_status\<close>, given the result of its \<open>api_get("/api/status")\<close>. \<open>result["status"]\<close>
  and \<open>status['totalLines']\<close> raise \<open>KeyError\<close> on an absent key.\<close>

definition check_status :: "status_result \<Rightarrow> py_error + bool" where
  "check_status result =
     (if \<not> sr_success result then Inr False
      else case sr_status result of
             None \<Rightarrow> Inl KeyError
           | Some status \<Rightarrow>
               (if filePath status = None \<or> filePath status = Some [] then Inr False
                else case totalLines status of None \<Rightarrow> Inl KeyError | Some n \<Rightarrow> Inr True))"

text \<open>\<open>main\<close> of the polling script: the outcome and the trace of the run, with \<open>now\<close> the
  clock reading of line 97.\<close>

definition main_poll ::
  "status_result \<Rightarrow> int \<Rightarrow> remote \<Rightarrow> string \<Rightarrow> nat \<Rightarrow> outcome \<times> io list" where
  "main_poll status now remote name n =
     (case check_status status of
        Inl e \<Rightarrow> (Uncaught e, [GetStatus])
      | Inr ok \<Rightarrow>
          if \<not> ok then (SysExit 1, [GetStatus])
          else (let st = send_message (''Hello! '' @ name @ '' connected via polling.'') name
                           (register name \<lparr>last_ts = now, trace = [GetStatus], dispatched = []\<rparr>);
                    r = poll_loop remote name 0 n st
                in (fst r, trace (snd r))))"

section \<open>Streaming mode (agent-chat-sse.py)\<close>

subsection \<open>Decoded JSON\<close>

text \<open>
  What \<open>json.loads\<close> returns. A Python \<open>dict\<close> is an association list with distinct keys,
  read with \<open>map_of\<close>. The scripts never compute with a decoded number; \<open>JFloat m e\<close> stands
  for a float.
\<close>

datatype json =
    JNull
  | JBool bool
  | JInt int
  | JFloat int int
  | JStr string
  | JArr "json list"
  | JObj "(string \<times> json) list"

text \<open>
  \<open>json.loads\<close> is code of the Python library, not of the scripts: the functions below take
  the decoder as the parameter \<open>loads\<close>. It returns a value or raises: \<open>JSONDecodeError\<close> on
  a text that is not JSON, \<open>RecursionError\<close> on a text nested too deeply and \<open>ValueError\<close> on
  an integer of too many digits.
\<close>

type_synonym decoder = "string \<Rightarrow> py_error + json"

subsection \<open>A decoder for concrete inputs\<close>

text \<open>
  \<open>json_loads\<close> decodes the JSON texts without fractions, exponents and \<open>\u\<close> escapes, and
  nested less deeply than the recursion limit of the interpreter, as \<open>json.loads\<close> of
  Python 3.11 does: an object keeps the last value of a repeated key at the place of the
  first, a number has no leading zero, an integer of more than 4300 digits raises
  \<open>ValueError\<close>, a string holds no raw control character, and text after the value is an
  error. The text is read from left to right and the first error met is the one raised. It
  instantiates the parameter \<open>loads\<close> where a theorem is evaluated at a concrete input. The
  fuel \<open>n\<close> bounds the calls, and two per character are enough.
\<close>

definition skip_ws :: "string \<Rightarrow> string" where
  "skip_ws s = dropWhile (\<lambda>c. c = CHR '' '' \<or> c = CHR 0x09 \<or> c = CHR 0x0A \<or> c = CHR 0x0D) s"

definition unescape :: "char \<Rightarrow> char option" where
  "unescape e =
     (if e = CHR 0x22 \<or> e = CHR 0x5C \<or> e = CHR ''/'' then Some e
      else if e = CHR ''b'' then Some (CHR 0x08)
      else if e = CHR ''f'' then Some (CHR 0x0C)
      else if e = CHR ''n'' then Some (CHR 0x0A)
      else if e = CHR ''r'' then Some (CHR 0x0D)
      else if e = CHR ''t'' then Some (CHR 0x09)
      else None)"

fun str_body :: "string \<Rightarrow> (string \<times> string) option" where
  "str_body [] = None"
| "str_body [c] = (if c = CHR 0x22 then Some ([], []) else None)"
| "str_body (c # e # cs) =
     (if c = CHR 0x22 then Some ([], e # cs)
      else if c = CHR 0x5C then
        (case unescape e of
           None \<Rightarrow> None
         | Some ch \<Rightarrow> map_option (\<lambda>(t, r). (ch # t, r)) (str_body cs))
      else if (of_char c :: nat) < 32 then None
      else map_option (\<lambda>(t, r). (c # t, r)) (str_body (e # cs)))"

definition is_digit :: "char \<Rightarrow> bool" where
  "is_digit c = ((48::nat) \<le> of_char c \<and> of_char c \<le> (57::nat))"

definition digits_val :: "string \<Rightarrow> int" where
  "digits_val ds = foldl (\<lambda>a c. 10 * a + (int (of_char c) - 48)) 0 ds"

definition parse_nat :: "string \<Rightarrow> py_error + (int \<times> string)" where
  "parse_nat s =
     (let ds = takeWhile is_digit s; r = dropWhile is_digit s in
      if ds = [] \<or> (hd ds = CHR ''0'' \<and> length ds > 1) then Inl JSONDecodeError
      else if startswith r ''.'' \<or> startswith r ''e'' \<or> startswith r ''E'' then Inl JSONDecodeError
      else if length ds > 4300 then Inl ValueError
      else Inr (digits_val ds, r))"

definition parse_int :: "string \<Rightarrow> py_error + (json \<times> string)" where
  "parse_int s =
     (case s of
        [] \<Rightarrow> Inl JSONDecodeError
      | c # cs \<Rightarrow>
          if c = CHR ''-'' then
            (case parse_nat cs of Inl e \<Rightarrow> Inl e | Inr (n, r) \<Rightarrow> Inr (JInt (- n), r))
          else
            (case parse_nat s of Inl e \<Rightarrow> Inl e | Inr (n, r) \<Rightarrow> Inr (JInt n, r)))"

fun parse_value :: "nat \<Rightarrow> string \<Rightarrow> py_error + (json \<times> string)"
  and parse_elems :: "nat \<Rightarrow> json list \<Rightarrow> string \<Rightarrow> py_error + (json \<times> string)"
  and parse_members :: "nat \<Rightarrow> (string \<times> json) list \<Rightarrow> string \<Rightarrow> py_error + (json \<times> string)"
where
  "parse_value 0 s = Inl RecursionError"
| "parse_value (Suc n) s =
     (case skip_ws s of
        [] \<Rightarrow> Inl JSONDecodeError
      | c # cs \<Rightarrow>
          if c = CHR ''{'' then
            (case skip_ws cs of
               [] \<Rightarrow> Inl JSONDecodeError
             | d # r \<Rightarrow> if d = CHR ''}'' then Inr (JObj [], r) else parse_members n [] cs)
          else if c = CHR ''['' then
            (case skip_ws cs of
               [] \<Rightarrow> Inl JSONDecodeError
             | d # r \<Rightarrow> if d = CHR '']'' then Inr (JArr [], r) else parse_elems n [] cs)
          else if c = CHR 0x22 then
            (case str_body cs of None \<Rightarrow> Inl JSONDecodeError | Some (t, r) \<Rightarrow> Inr (JStr t, r))
          else if startswith (c # cs) ''null'' then Inr (JNull, drop 4 (c # cs))
          else if startswith (c # cs) ''true'' then Inr (JBool True, drop 4 (c # cs))
          else if startswith (c # cs) ''false'' then Inr (JBool False, drop 5 (c # cs))
          else parse_int (c # cs))"
| "parse_elems 0 acc s = Inl RecursionError"
| "parse_elems (Suc n) acc s =
     (case parse_value n s of
        Inl e \<Rightarrow> Inl e
      | Inr (v, r) \<Rightarrow>
          (case skip_ws r of
             [] \<Rightarrow> Inl JSONDecodeError
           | c # r' \<Rightarrow>
               if c = CHR '','' then parse_elems n (acc @ [v]) r'
               else if c = CHR '']'' then Inr (JArr (acc @ [v]), r')
               else Inl JSONDecodeError))"
| "parse_members 0 acc s = Inl RecursionError"
| "parse_members (Suc n) acc s =
     (case skip_ws s of
        [] \<Rightarrow> Inl JSONDecodeError
      | q # r \<Rightarrow>
          if q \<noteq> CHR 0x22 then Inl JSONDecodeError
          else (case str_body r of
                  None \<Rightarrow> Inl JSONDecodeError
                | Some (k, r1) \<Rightarrow>
                    (case skip_ws r1 of
                       [] \<Rightarrow> Inl JSONDecodeError
                     | c # r2 \<Rightarrow>
                         if c \<noteq> CHR '':'' then Inl JSONDecodeError
                         else (case parse_value n r2 of
                                 Inl e \<Rightarrow> Inl e
                               | Inr (v, r3) \<Rightarrow>
                                   (case skip_ws r3 of
                                      [] \<Rightarrow> Inl JSONDecodeError
                                    | d # r4 \<Rightarrow>
                                        if d = CHR '','' then parse_members n (AList.update k v acc) r4
                                        else if d = CHR ''}'' then Inr (JObj (AList.update k v acc), r4)
                                        else Inl JSONDecodeError)))))"

definition json_loads :: decoder where
  "json_loads s =
     (case parse_value (2 * length s + 2) s of
        Inl e \<Rightarrow> Inl e
      | Inr (v, r) \<Rightarrow> if skip_ws r = [] then Inr v else Inl JSONDecodeError)"

subsection \<open>The string operations of the frame loop\<close>

text \<open>\<open>chunk.decode("utf-8", errors="replace")\<close> for a chunk of one byte: a byte below 128
  is its ASCII code point, every other byte alone is undecodable and becomes U+FFFD.\<close>

definition decode1 :: "char \<Rightarrow> string" where
  "decode1 b = (if (of_char b :: nat) < 128 then [b] else [CHR 0xEF, CHR 0xBF, CHR 0xBD])"

text \<open>\<open>str.isspace\<close> on the code points a decoded buffer can hold, and \<open>s.strip()\<close>\<close>

definition is_space :: "char \<Rightarrow> bool" where
  "is_space c = (let n = (of_char c :: nat) in (9 \<le> n \<and> n \<le> 13) \<or> (28 \<le> n \<and> n \<le> 32))"

definition strip :: "string \<Rightarrow> string" where
  "strip s = rev (dropWhile is_space (rev (dropWhile is_space s)))"

text \<open>\<open>s.split("\n")\<close>\<close>

fun split_nl :: "string \<Rightarrow> string list" where
  "split_nl [] = [[]]"
| "split_nl (c # cs) =
     (if c = CHR 0x0A then [] # split_nl cs
      else case split_nl cs of [] \<Rightarrow> [[c]] | l # ls \<Rightarrow> (c # l) # ls)"

subsection \<open>The frame loop\<close>

text \<open>
  The state of \<open>listen_sse\<close>: the frame buffer and the trace of requests, and two records of
  what the loop has done: every buffer the test \<open>buffer.endswith("\n\n")\<close> accepted (the
  frames extracted) and every value \<open>json.loads\<close> returned (the events decoded), in order.
\<close>

record sse_state =
  buffer :: string
  sent :: "io list"
  frames :: "string list"
  decoded :: "json list"

definition send_message_sse :: "string \<Rightarrow> sse_state \<Rightarrow> sse_state" where
  "send_message_sse t st = st\<lparr>sent := sent st @ [PostMessage t None]\<rparr>"

definition handle_message :: "string \<Rightarrow> sse_state \<Rightarrow> outcome \<times> sse_state" where
  "handle_message msg_text st =
     (if is_farewell msg_text
      then (SysExit 0, send_message_sse ''Goodbye! Disconnecting.'' st)
      else (Running, send_message_sse (''Received: '' @ msg_text) st))"

text \<open>
  The body of \<open>for line in ...\<close> (lines 101 to 110). \<open>except json.JSONDecodeError\<close> catches
  that exception of \<open>json.loads\<close> and no other: \<open>RecursionError\<close> and \<open>ValueError\<close> end the
  run, as do the \<open>KeyError\<close> that \<open>data['text']\<close> raises on an absent key and the
  \<open>AttributeError\<close> that \<open>msg_text.lower()\<close> raises on a value that is no string. The branch
  for the connection acknowledgement only prints.
\<close>

definition process_line :: "decoder \<Rightarrow> string \<Rightarrow> sse_state \<Rightarrow> outcome \<times> sse_state" where
  "process_line loads line st =
     (if startswith line ''data: '' then
        (case loads (drop 6 line) of
           Inl e \<Rightarrow> if e = JSONDecodeError then (Running, st) else (Uncaught e, st)
         | Inr data \<Rightarrow>
             (let st1 = st\<lparr>decoded := decoded st @ [data]\<rparr>
              in case data of
                   JObj d \<Rightarrow>
                     (if map_of d ''from'' = Some (JStr ''user'') then
                        (case map_of d ''text'' of
                           None \<Rightarrow> (Uncaught KeyError, st1)
                         | Some (JStr t) \<Rightarrow> handle_message t st1
                         | Some other \<Rightarrow> (Uncaught AttributeError, st1))
                      else if map_of d ''name'' \<noteq> None then (Running, st1)
                      else (Running, st1))
                 | other \<Rightarrow> (Running, st1)))
      else (Running, st))"

fun for_lines :: "decoder \<Rightarrow> string list \<Rightarrow> sse_state \<Rightarrow> outcome \<times> sse_state" where
  "for_lines loads [] st = (Running, st)"
| "for_lines loads (line # rest) st =
     (case process_line loads line st of
        (Running, st') \<Rightarrow> for_lines loads rest st'
      | (out, st') \<Rightarrow> (out, st'))"

text \<open>One iteration of \<open>while True\<close> on the byte \<open>b\<close> that \<open>resp.read(1)\<close> returned
  (lines 97 to 111)\<close>

definition sse_iter :: "decoder \<Rightarrow> char \<Rightarrow> sse_state \<Rightarrow> outcome \<times> sse_state" where
  "sse_iter loads b st =
     (let buf = buffer st @ decode1 b in
      if endswith buf ''\<newline>\<newline>'' then
        (case for_lines loads (split_nl (strip buf))
                (st\<lparr>buffer := buf, frames := frames st @ [buf]\<rparr>) of
           (Running, st') \<Rightarrow> (Running, st'\<lparr>buffer := []\<rparr>)
         | (out, st') \<Rightarrow> (out, st'))
      else (Running, st\<lparr>buffer := buf\<rparr>))"

text \<open>
  The response body arrives as a list of delivery chunks. \<open>resp.read(1)\<close> takes the next byte
  of the body, waiting across chunk boundaries, and returns nothing only at the end of the
  body.
\<close>

fun read1 :: "string list \<Rightarrow> (char \<times> string list) option" where
  "read1 [] = None"
| "read1 ([] # cs) = read1 cs"
| "read1 ((b # bs) # cs) = Some (b, bs # cs)"

fun resp_size :: "string list \<Rightarrow> nat" where
  "resp_size [] = 0"
| "resp_size (c # cs) = Suc (length c + resp_size cs)"

lemma read1_size: "read1 resp = Some (b, resp') \<Longrightarrow> resp_size resp' < resp_size resp"
  by (induction resp rule: read1.induct) auto

text \<open>The loop of \<open>listen_sse\<close>: it breaks, and \<open>main\<close> returns, at the end of the body.\<close>

function listen_loop :: "decoder \<Rightarrow> string list \<Rightarrow> sse_state \<Rightarrow> outcome \<times> sse_state" where
  "listen_loop loads resp st =
     (case read1 resp of
        None \<Rightarrow> (Returned, st)
      | Some (b, resp') \<Rightarrow>
          (case sse_iter loads b st of
             (Running, st') \<Rightarrow> listen_loop loads resp' st'
           | (out, st') \<Rightarrow> (out, st')))"
  by pat_completeness auto
termination
  by (relation "measure (\<lambda>(loads, resp, st). resp_size resp)") (auto simp: read1_size)

text \<open>\<open>listen_sse\<close>: \<open>resp\<close> is \<open>None\<close> when \<open>urlopen\<close> raises.\<close>

definition listen_sse :: "decoder \<Rightarrow> string \<Rightarrow> string list option \<Rightarrow> sse_state \<Rightarrow> outcome \<times> sse_state" where
  "listen_sse loads agent_name resp st =
     (let st1 = st\<lparr>sent := sent st @ [GetEvents agent_name]\<rparr>
      in case resp of
           None \<Rightarrow> (SysExit 1, st1)
         | Some body \<Rightarrow> listen_loop loads body (st1\<lparr>buffer := []\<rparr>))"

definition main_sse ::
  "decoder \<Rightarrow> status_result \<Rightarrow> string \<Rightarrow> string list option \<Rightarrow> outcome \<times> sse_state" where
  "main_sse loads status name resp =
     (let st0 = \<lparr>buffer = [], sent = [GetStatus], frames = [], decoded = []\<rparr>
      in case check_status status of
           Inl e \<Rightarrow> (Uncaught e, st0)
         | Inr ok \<Rightarrow>
             if \<not> ok then (SysExit 1, st0)
             else listen_sse loads name resp
                    (send_message_sse (''Hello! '' @ name @ '' connected via SSE.'') st0))"

section \<open>The termination rule\<close>

text \<open>The executable substring test finds exactly the substrings.\<close>

lemma startswith_iff: "startswith s p \<longleftrightarrow> (\<exists>ys. s = p @ ys)"
proof
  assume "startswith s p"
  then have "s = p @ drop (length p) s"
    unfolding startswith_def by (metis append_take_drop_id)
  then show "\<exists>ys. s = p @ ys" ..
next
  assume "\<exists>ys. s = p @ ys"
  then show "startswith s p" by (auto simp: startswith_def)
qed

lemma contains_iff: "contains s p \<longleftrightarrow> (\<exists>xs ys. s = xs @ p @ ys)"
proof (induction s)
  case Nil
  show ?case by auto
next
  case (Cons c cs)
  show ?case
  proof
    assume "contains (c # cs) p"
    then consider "startswith (c # cs) p" | "contains cs p" by auto
    then show "\<exists>xs ys. c # cs = xs @ p @ ys"
    proof cases
      case 1
      then obtain ys where "c # cs = p @ ys" by (auto simp: startswith_iff)
      then have "c # cs = [] @ p @ ys" by simp
      then show ?thesis by blast
    next
      case 2
      then obtain xs ys where "cs = xs @ p @ ys" using Cons.IH by auto
      then have "c # cs = (c # xs) @ p @ ys" by simp
      then show ?thesis by blast
    qed
  next
    assume "\<exists>xs ys. c # cs = xs @ p @ ys"
    then obtain xs ys where e: "c # cs = xs @ p @ ys" by auto
    show "contains (c # cs) p"
    proof (cases xs)
      case Nil
      with e have "startswith (c # cs) p" by (auto simp: startswith_iff)
      then show ?thesis by simp
    next
      case (Cons x xs')
      with e have "cs = xs' @ p @ ys" by simp
      then have "contains cs p" using Cons.IH by blast
      then show ?thesis by simp
    qed
  qed
qed

lemma is_farewell_iff:
  "is_farewell t \<longleftrightarrow>
     (\<exists>xs ys. lower t = xs @ ''goodbye'' @ ys) \<or> (\<exists>xs ys. lower t = xs @ ''bye'' @ ys)"
  by (simp only: is_farewell_def contains_iff)

text \<open>
  C1: a user message dispatched in either mode takes the farewell path if and only if its
  lowercased text has \<open>goodbye\<close> or \<open>bye\<close> as a substring. On that path exactly one request is
  made, the fixed farewell, and the run ends (the polling loop returns, the streaming script
  exits with code 0); otherwise exactly one request is made, the reply \<open>Received: \<close> followed
  by the text, and the loop goes on. The four texts of the specification take the farewell
  path.
\<close>

theorem C1_termination_rule:
  "poll_handle name msg st =
     (if (\<exists>xs ys. lower (m_text msg) = xs @ ''goodbye'' @ ys) \<or>
         (\<exists>xs ys. lower (m_text msg) = xs @ ''bye'' @ ys)
      then (Returned, st\<lparr>last_ts := m_timestamp msg, dispatched := dispatched st @ [msg],
                           trace := trace st @ [PostMessage ''Goodbye! Disconnecting.'' (Some name)]\<rparr>)
      else (Running, st\<lparr>last_ts := m_timestamp msg, dispatched := dispatched st @ [msg],
                          trace := trace st @ [PostMessage (''Received: '' @ m_text msg) (Some name)]\<rparr>))
   \<and> handle_message t s =
     (if (\<exists>xs ys. lower t = xs @ ''goodbye'' @ ys) \<or> (\<exists>xs ys. lower t = xs @ ''bye'' @ ys)
      then (SysExit 0, s\<lparr>sent := sent s @ [PostMessage ''Goodbye! Disconnecting.'' None]\<rparr>)
      else (Running, s\<lparr>sent := sent s @ [PostMessage (''Received: '' @ t) None]\<rparr>))
   \<and> is_farewell ''bye'' \<and> is_farewell ''Goodbye!'' \<and> is_farewell ''say bye now''
   \<and> is_farewell ''byebye program''"
proof (intro conjI)
  show "poll_handle name msg st =
     (if (\<exists>xs ys. lower (m_text msg) = xs @ ''goodbye'' @ ys) \<or>
         (\<exists>xs ys. lower (m_text msg) = xs @ ''bye'' @ ys)
      then (Returned, st\<lparr>last_ts := m_timestamp msg, dispatched := dispatched st @ [msg],
                           trace := trace st @ [PostMessage ''Goodbye! Disconnecting.'' (Some name)]\<rparr>)
      else (Running, st\<lparr>last_ts := m_timestamp msg, dispatched := dispatched st @ [msg],
                          trace := trace st @ [PostMessage (''Received: '' @ m_text msg) (Some name)]\<rparr>))"
    unfolding is_farewell_iff[symmetric] by (simp add: poll_handle_def send_message_def)
  show "handle_message t s =
     (if (\<exists>xs ys. lower t = xs @ ''goodbye'' @ ys) \<or> (\<exists>xs ys. lower t = xs @ ''bye'' @ ys)
      then (SysExit 0, s\<lparr>sent := sent s @ [PostMessage ''Goodbye! Disconnecting.'' None]\<rparr>)
      else (Running, s\<lparr>sent := sent s @ [PostMessage (''Received: '' @ t) None]\<rparr>))"
    unfolding is_farewell_iff[symmetric] by (simp add: handle_message_def send_message_sse_def)
  show "is_farewell ''bye''" by code_simp
  show "is_farewell ''Goodbye!''" by code_simp
  show "is_farewell ''say bye now''" by code_simp
  show "is_farewell ''byebye program''" by code_simp
qed

theorem C1_termination_rule_witness:
  "poll_handle ''Agent'' \<lparr>m_from = ''user'', m_text = ''Goodbye!'', m_timestamp = 7\<rparr>
       \<lparr>last_ts = 3, trace = [], dispatched = []\<rparr>
     = (Returned, \<lparr>last_ts = 7, trace = [PostMessage ''Goodbye! Disconnecting.'' (Some ''Agent'')],
          dispatched = [\<lparr>m_from = ''user'', m_text = ''Goodbye!'', m_timestamp = 7\<rparr>]\<rparr>)
   \<and> handle_message ''ping'' \<lparr>buffer = [], sent = [], frames = [], decoded = []\<rparr>
     = (Running, \<lparr>buffer = [], sent = [PostMessage ''Received: ping'' None], frames = [], decoded = []\<rparr>)"
proof -
  have a: "is_farewell ''Goodbye!''" by code_simp
  have b: "\<not> is_farewell ''ping''" by code_simp
  note t = C1_termination_rule [of "''Agent''" "\<lparr>m_from = ''user'', m_text = ''Goodbye!'', m_timestamp = 7\<rparr>"
      "\<lparr>last_ts = 3, trace = [], dispatched = []\<rparr>" "''ping''"
      "\<lparr>buffer = [], sent = [], frames = [], decoded = []\<rparr>"]
  from t a b show ?thesis
    unfolding is_farewell_iff by simp
qed

section \<open>The polling loop\<close>

text \<open>A batch without a farewell is processed whole: the cursor ends at the timestamp of
  its last message and every message gets its reply.\<close>

lemma for_msgs_all:
  "\<forall>m \<in> set ms. \<not> is_farewell (m_text m) \<Longrightarrow>
   for_msgs name ms st =
     (Running, st\<lparr>last_ts := (if ms = [] then last_ts st else m_timestamp (last ms)),
                   dispatched := dispatched st @ ms,
                   trace := trace st @ map (\<lambda>m. PostMessage (''Received: '' @ m_text m) (Some name)) ms\<rparr>)"
proof (induction ms arbitrary: st)
  case Nil
  show ?case by simp
next
  case (Cons m ms)
  have h: "poll_handle name m st =
      (Running, st\<lparr>last_ts := m_timestamp m, dispatched := dispatched st @ [m],
                    trace := trace st @ [PostMessage (''Received: '' @ m_text m) (Some name)]\<rparr>)"
    using Cons.prems by (simp add: poll_handle_def send_message_def)
  have r: "\<forall>m \<in> set ms. \<not> is_farewell (m_text m)" using Cons.prems by simp
  show ?case by (simp add: h Cons.IH [OF r])
qed

text \<open>The first farewell of a batch ends the loop there.\<close>

lemma for_msgs_farewell:
  assumes "\<forall>m \<in> set pre. \<not> is_farewell (m_text m)" and "is_farewell (m_text m)"
  shows "for_msgs name (pre @ m # post) st =
     (Returned, st\<lparr>last_ts := m_timestamp m,
                    dispatched := dispatched st @ pre @ [m],
                    trace := trace st @ map (\<lambda>m. PostMessage (''Received: '' @ m_text m) (Some name)) pre
                               @ [PostMessage ''Goodbye! Disconnecting.'' (Some name)]\<rparr>)"
  using assms(1)
proof (induction pre arbitrary: st)
  case Nil
  show ?case using assms(2) by (simp add: poll_handle_def send_message_def)
next
  case (Cons p pre)
  have h: "poll_handle name p st =
      (Running, st\<lparr>last_ts := m_timestamp p, dispatched := dispatched st @ [p],
                    trace := trace st @ [PostMessage (''Received: '' @ m_text p) (Some name)]\<rparr>)"
    using Cons.prems by (simp add: poll_handle_def send_message_def)
  have r: "\<forall>m \<in> set pre. \<not> is_farewell (m_text m)" using Cons.prems by simp
  show ?case by (simp add: h Cons.IH [OF r])
qed

text \<open>Every batch splits at its first farewell, if it has one.\<close>

lemma split_at_farewell:
  "(\<forall>m \<in> set ms. \<not> is_farewell (m_text m)) \<or>
   (\<exists>pre m post. ms = pre @ m # post \<and> (\<forall>x \<in> set pre. \<not> is_farewell (m_text x)) \<and> is_farewell (m_text m))"
proof (induction ms)
  case Nil
  show ?case by simp
next
  case (Cons a ms)
  show ?case
  proof (cases "is_farewell (m_text a)")
    case True
    then have "a # ms = [] @ a # ms \<and> (\<forall>x \<in> set []. \<not> is_farewell (m_text x)) \<and> is_farewell (m_text a)"
      by simp
    then show ?thesis by blast
  next
    case False
    from Cons.IH show ?thesis
    proof
      assume "\<forall>m \<in> set ms. \<not> is_farewell (m_text m)"
      with False show ?thesis by simp
    next
      assume "\<exists>pre m post. ms = pre @ m # post \<and> (\<forall>x \<in> set pre. \<not> is_farewell (m_text x)) \<and> is_farewell (m_text m)"
      then obtain pre m post where
        "ms = pre @ m # post" "\<forall>x \<in> set pre. \<not> is_farewell (m_text x)" "is_farewell (m_text m)"
        by blast
      with False have "a # ms = (a # pre) @ m # post \<and> (\<forall>x \<in> set (a # pre). \<not> is_farewell (m_text x))
          \<and> is_farewell (m_text m)" by simp
      then show ?thesis by blast
    qed
  qed
qed

text \<open>What the \<open>for\<close> loop leaves in every case: it has run on a prefix of the batch, the
  whole batch unless it returned, and the cursor is the timestamp of the last message of
  that prefix.\<close>

lemma for_msgs_prefix:
  "\<exists>pre post. ms = pre @ post \<and>
     dispatched (snd (for_msgs name ms st)) = dispatched st @ pre \<and>
     last_ts (snd (for_msgs name ms st)) = (if pre = [] then last_ts st else m_timestamp (last pre)) \<and>
     (fst (for_msgs name ms st) = Running \<and> post = [] \<or>
      fst (for_msgs name ms st) = Returned \<and> pre \<noteq> [])"
proof -
  from split_at_farewell [of ms] show ?thesis
  proof
    assume a: "\<forall>m \<in> set ms. \<not> is_farewell (m_text m)"
    have "ms = ms @ []" by simp
    then show ?thesis
      using for_msgs_all [OF a, of name st] by (intro exI [of _ ms] exI [of _ "[]"]) simp
  next
    assume "\<exists>pre m post. ms = pre @ m # post \<and> (\<forall>x \<in> set pre. \<not> is_farewell (m_text x)) \<and> is_farewell (m_text m)"
    then obtain pre m post where
      ms: "ms = pre @ m # post" and a: "\<forall>x \<in> set pre. \<not> is_farewell (m_text x)" and b: "is_farewell (m_text m)"
      by blast
    show ?thesis
      unfolding ms using for_msgs_farewell [OF a b, of name post st]
      by (intro exI [of _ "pre @ [m]"] exI [of _ post]) simp
  qed
qed

lemma poll_loop_Suc:
  "poll_loop remote name k (Suc n) st =
     (case poll_loop remote name k n st of
        (Running, st') \<Rightarrow> poll_cycle remote name (k + n) st'
      | (out, st') \<Rightarrow> (out, st'))"
proof (induction n arbitrary: k st)
  case 0
  show ?case by (simp split: prod.splits outcome.splits)
next
  case (Suc n)
  show ?case
  proof (cases "poll_cycle remote name k st")
    case (Pair out st')
    show ?thesis
    proof (cases out)
      case Running
      have L: "poll_loop remote name k (Suc (Suc n)) st = poll_loop remote name (Suc k) (Suc n) st'"
        using Pair Running by simp
      have R: "poll_loop remote name k (Suc n) st = poll_loop remote name (Suc k) n st'"
        using Pair Running by simp
      show ?thesis
        by (simp only: L R Suc.IH [of "Suc k" st'] add_Suc_shift)
    qed (use Pair in simp_all)
  qed
qed

text \<open>
  C6: when a fetch fails, \<open>poll_messages\<close> returns the empty list, and the cycle dispatches
  nothing, leaves the cursor where it was and does not end the loop. However many fetches
  fail in a row, the loop goes on: after \<open>n\<close> failed cycles it is still running and has made
  \<open>n\<close> fetches, each after the same wait of \<open>POLL_INTERVAL\<close> and each with the same cursor.
\<close>

theorem C6_failed_fetch_retried:
  assumes "\<forall>j < n. \<not> pr_success (remote (k + j) (last_ts st))"
  shows "(\<forall>j < n. poll_messages (remote (k + j) (last_ts st)) = []) \<and>
         poll_loop remote name k n st =
           (Running, st\<lparr>trace := trace st @ concat (replicate n [Sleep 2, GetMessages (last_ts st)])\<rparr>)"
proof
  show "\<forall>j < n. poll_messages (remote (k + j) (last_ts st)) = []"
    using assms by (simp add: poll_messages_def)
  show "poll_loop remote name k n st =
           (Running, st\<lparr>trace := trace st @ concat (replicate n [Sleep 2, GetMessages (last_ts st)])\<rparr>)"
    using assms
  proof (induction n arbitrary: k st)
    case 0
    show ?case by simp
  next
    case (Suc n)
    have f: "\<not> pr_success (remote k (last_ts st))" using Suc.prems by force
    let ?st = "st\<lparr>trace := trace st @ [Sleep 2, GetMessages (last_ts st)]\<rparr>"
    have c: "poll_cycle remote name k st = (Running, ?st)"
      using f by (simp add: poll_cycle_def poll_messages_def POLL_INTERVAL_def)
    have "\<forall>j < n. \<not> pr_success (remote (Suc k + j) (last_ts ?st))"
    proof (intro allI impI)
      fix j assume "j < n"
      then have "Suc j < Suc n" by simp
      with Suc.prems have "\<not> pr_success (remote (k + Suc j) (last_ts st))" by blast
      then show "\<not> pr_success (remote (Suc k + j) (last_ts ?st))" by simp
    qed
    from Suc.IH [OF this] show ?case by (simp add: c)
  qed
qed

theorem C6_failed_fetch_retried_witness:
  "poll_loop (\<lambda>k since. \<lparr>pr_success = False, pr_messages = None\<rparr>) ''Agent'' 0 (Suc (Suc 0))
       \<lparr>last_ts = 100, trace = [], dispatched = []\<rparr>
     = (Running, \<lparr>last_ts = 100,
          trace = [Sleep 2, GetMessages 100, Sleep 2, GetMessages 100], dispatched = []\<rparr>)"
  using C6_failed_fetch_retried [of "Suc (Suc 0)" "\<lambda>k since. \<lparr>pr_success = False, pr_messages = None\<rparr>" 0
      "\<lparr>last_ts = 100, trace = [], dispatched = []\<rparr>" "''Agent''"]
  by simp

text \<open>
  C10: when a fetched batch holds a farewell, the cycle ends the loop at the first one: the
  messages before it are dispatched and answered, the farewell is sent, no message after it is
  dispatched or answered, and the cursor is the timestamp of that message, whatever the
  timestamps of the messages after it.
\<close>

theorem C10_batch_cut_at_farewell:
  assumes "poll_messages (remote k (last_ts st)) = pre @ m # post"
    and "\<forall>x \<in> set pre. \<not> is_farewell (m_text x)"
    and "is_farewell (m_text m)"
  shows "poll_loop remote name k (Suc n) st =
     (Returned, st\<lparr>last_ts := m_timestamp m,
                    dispatched := dispatched st @ pre @ [m],
                    trace := trace st @ [Sleep 2, GetMessages (last_ts st)]
                               @ map (\<lambda>x. PostMessage (''Received: '' @ m_text x) (Some name)) pre
                               @ [PostMessage ''Goodbye! Disconnecting.'' (Some name)]\<rparr>)"
proof -
  have "poll_cycle remote name k st =
     (Returned, st\<lparr>last_ts := m_timestamp m,
                    dispatched := dispatched st @ pre @ [m],
                    trace := trace st @ [Sleep 2, GetMessages (last_ts st)]
                               @ map (\<lambda>x. PostMessage (''Received: '' @ m_text x) (Some name)) pre
                               @ [PostMessage ''Goodbye! Disconnecting.'' (Some name)]\<rparr>)"
    unfolding poll_cycle_def assms(1)
    by (simp add: for_msgs_farewell [OF assms(2) assms(3)] POLL_INTERVAL_def)
  then show ?thesis by simp
qed

theorem C10_batch_cut_at_farewell_witness:
  "poll_loop (\<lambda>k since. \<lparr>pr_success = True, pr_messages = Some
        [\<lparr>m_from = ''user'', m_text = ''hi'', m_timestamp = 11\<rparr>,
         \<lparr>m_from = ''user'', m_text = ''bye'', m_timestamp = 12\<rparr>,
         \<lparr>m_from = ''user'', m_text = ''more'', m_timestamp = 13\<rparr>]\<rparr>) ''A'' 0 (Suc 0)
       \<lparr>last_ts = 10, trace = [], dispatched = []\<rparr>
     = (Returned, \<lparr>last_ts = 12,
          trace = [Sleep 2, GetMessages 10, PostMessage ''Received: hi'' (Some ''A''),
                   PostMessage ''Goodbye! Disconnecting.'' (Some ''A'')],
          dispatched = [\<lparr>m_from = ''user'', m_text = ''hi'', m_timestamp = 11\<rparr>,
                        \<lparr>m_from = ''user'', m_text = ''bye'', m_timestamp = 12\<rparr>]\<rparr>)"
proof -
  have a: "\<not> is_farewell ''hi''" by code_simp
  have b: "is_farewell ''bye''" by code_simp
  show ?thesis
    using C10_batch_cut_at_farewell [of "\<lambda>k since. \<lparr>pr_success = True, pr_messages = Some
        [\<lparr>m_from = ''user'', m_text = ''hi'', m_timestamp = 11\<rparr>,
         \<lparr>m_from = ''user'', m_text = ''bye'', m_timestamp = 12\<rparr>,
         \<lparr>m_from = ''user'', m_text = ''more'', m_timestamp = 13\<rparr>]\<rparr>" 0
       "\<lparr>last_ts = 10, trace = [], dispatched = []\<rparr>"
       "[\<lparr>m_from = ''user'', m_text = ''hi'', m_timestamp = 11\<rparr>]"
       "\<lparr>m_from = ''user'', m_text = ''bye'', m_timestamp = 12\<rparr>"
       "[\<lparr>m_from = ''user'', m_text = ''more'', m_timestamp = 13\<rparr>]" "''A''" 0] a b
    by (simp add: poll_messages_def)
qed

section \<open>Bootstrap\<close>

text \<open>
  C8: when the readiness query fails at the transport, or succeeds with a status whose
  \<open>filePath\<close> is absent or empty, \<open>check_status\<close> returns false and \<open>main\<close> exits with code 1
  having made the status query and nothing else: no registration and no message send. The
  same holds for \<open>main\<close> of the streaming script, which then opens no event stream either.
\<close>

theorem C8_bootstrap_gate:
  assumes "\<not> sr_success result \<or>
           (\<exists>status. sr_status result = Some status \<and>
                     (filePath status = None \<or> filePath status = Some ''''))"
  shows "check_status result = Inr False \<and>
         main_poll result now remote name n = (SysExit 1, [GetStatus]) \<and>
         main_sse loads result name resp =
           (SysExit 1, \<lparr>buffer = [], sent = [GetStatus], frames = [], decoded = []\<rparr>)"
proof -
  have c: "check_status result = Inr False"
    using assms by (auto simp: check_status_def)
  show ?thesis
    by (simp add: c main_poll_def main_sse_def)
qed

theorem C8_bootstrap_gate_witness:
  "check_status \<lparr>sr_success = True, sr_status = Some \<lparr>filePath = Some '''', totalLines = Some 0\<rparr>\<rparr>
     = Inr False \<and>
   main_poll \<lparr>sr_success = True, sr_status = Some \<lparr>filePath = Some '''', totalLines = Some 0\<rparr>\<rparr>
       1000 (\<lambda>k since. \<lparr>pr_success = True, pr_messages = Some []\<rparr>) ''Agent'' 5
     = (SysExit 1, [GetStatus]) \<and>
   main_sse json_loads \<lparr>sr_success = True, sr_status = Some \<lparr>filePath = Some '''', totalLines = Some 0\<rparr>\<rparr>
       ''Agent'' (Some [''data: 1'']) =
     (SysExit 1, \<lparr>buffer = [], sent = [GetStatus], frames = [], decoded = []\<rparr>)"
  using C8_bootstrap_gate [of "\<lparr>sr_success = True, sr_status = Some \<lparr>filePath = Some '''', totalLines = Some 0\<rparr>\<rparr>"
      1000 "\<lambda>k since. \<lparr>pr_success = True, pr_messages = Some []\<rparr>" "''Agent''" 5 json_loads "Some [''data: 1'']"]
  by simp

section \<open>The cursor\<close>

lemma sorted_last_Max:
  assumes "sorted (map f ms)" and "ms \<noteq> []"
  shows "Max (f ` set ms) = f (last ms)"
proof (rule Max_eqI)
  show "finite (f ` set ms)" by simp
  show "f (last ms) \<in> f ` set ms" using assms(2) by simp
  fix y assume "y \<in> f ` set ms"
  then obtain i where i: "i < length ms" and y: "y = f (ms ! i)"
    by (auto simp: in_set_conv_nth)
  have "map f ms ! i \<le> map f ms ! (length ms - 1)"
    using assms(1) i by (intro sorted_nth_mono) auto
  then show "y \<le> f (last ms)"
    using i y assms(2) by (simp add: last_conv_nth)
qed

lemma sorted_prefix_le_last:
  assumes "sorted (map f (pre @ post))" and "x \<in> set pre"
  shows "f x \<le> f (last pre)"
proof -
  have s: "sorted (map f pre)" using assms(1) by (simp add: sorted_append)
  have ne: "pre \<noteq> []" using assms(2) by auto
  have "f x \<le> Max (f ` set pre)" using assms(2) by simp
  then show ?thesis by (simp add: sorted_last_Max [OF s ne])
qed

text \<open>One cycle runs the \<open>for\<close> loop on a prefix of the fetched batch.\<close>

lemma poll_cycle_prefix:
  "\<exists>pre post. poll_messages (remote k (last_ts st)) = pre @ post \<and>
     dispatched (snd (poll_cycle remote name k st)) = dispatched st @ pre \<and>
     last_ts (snd (poll_cycle remote name k st)) =
       (if pre = [] then last_ts st else m_timestamp (last pre))"
proof -
  let ?st = "st\<lparr>trace := trace st @ [Sleep POLL_INTERVAL, GetMessages (last_ts st)]\<rparr>"
  from for_msgs_prefix [of "poll_messages (remote k (last_ts st))" name ?st]
  obtain pre post where
    "poll_messages (remote k (last_ts st)) = pre @ post"
    "dispatched (snd (for_msgs name (poll_messages (remote k (last_ts st))) ?st)) = dispatched ?st @ pre"
    "last_ts (snd (for_msgs name (poll_messages (remote k (last_ts st))) ?st)) =
       (if pre = [] then last_ts ?st else m_timestamp (last pre))"
    by blast
  then show ?thesis
    unfolding poll_cycle_def by (intro exI [of _ pre] exI [of _ post]) simp
qed

lemma poll_loop_Suc_cases:
  "snd (poll_loop remote name k (Suc n) st) = snd (poll_loop remote name k n st) \<or>
   snd (poll_loop remote name k (Suc n) st) =
     snd (poll_cycle remote name (k + n) (snd (poll_loop remote name k n st)))"
  by (simp only: poll_loop_Suc) (auto split: prod.splits outcome.splits)

text \<open>A cycle does not move the cursor back when no fetched message is older than it.\<close>

lemma poll_cycle_mono:
  assumes "\<forall>x \<in> set (poll_messages (remote k (last_ts st))). last_ts st \<le> m_timestamp x"
  shows "last_ts st \<le> last_ts (snd (poll_cycle remote name k st))"
proof -
  from poll_cycle_prefix [of remote k st name] obtain pre post where
    ms: "poll_messages (remote k (last_ts st)) = pre @ post" and
    l: "last_ts (snd (poll_cycle remote name k st)) =
       (if pre = [] then last_ts st else m_timestamp (last pre))"
    by blast
  show ?thesis
  proof (cases "pre = []")
    case True
    with l show ?thesis by simp
  next
    case False
    then have "last pre \<in> set (poll_messages (remote k (last_ts st)))" by (simp add: ms)
    with assms have "last_ts st \<le> m_timestamp (last pre)" by blast
    with l False show ?thesis by simp
  qed
qed

text \<open>The cursor bounds the dispatched timestamps, and the dispatched messages are
  distinct: what a cycle keeps of these.\<close>

lemma poll_cycle_bound:
  assumes ge: "\<forall>x \<in> set (poll_messages (remote k (last_ts st))). last_ts st \<le> m_timestamp x"
    and so: "sorted (map m_timestamp (poll_messages (remote k (last_ts st))))"
    and inv: "\<forall>x \<in> set (dispatched st). m_timestamp x \<le> last_ts st"
  shows "\<forall>x \<in> set (dispatched (snd (poll_cycle remote name k st))).
           m_timestamp x \<le> last_ts (snd (poll_cycle remote name k st))"
proof -
  from poll_cycle_prefix [of remote k st name] obtain pre post where
    ms: "poll_messages (remote k (last_ts st)) = pre @ post" and
    d: "dispatched (snd (poll_cycle remote name k st)) = dispatched st @ pre" and
    l: "last_ts (snd (poll_cycle remote name k st)) =
       (if pre = [] then last_ts st else m_timestamp (last pre))"
    by blast
  show ?thesis
  proof (cases "pre = []")
    case True
    with d l inv show ?thesis by simp
  next
    case False
    have a: "\<forall>x \<in> set pre. m_timestamp x \<le> m_timestamp (last pre)"
      using so sorted_prefix_le_last [of m_timestamp pre post] by (simp add: ms)
    have "last pre \<in> set (poll_messages (remote k (last_ts st)))" using False by (simp add: ms)
    with ge have "last_ts st \<le> m_timestamp (last pre)" by blast
    with inv have b: "\<forall>x \<in> set (dispatched st). m_timestamp x \<le> m_timestamp (last pre)" by force
    from a b d l False show ?thesis by auto
  qed
qed

lemma poll_cycle_distinct:
  assumes gt: "\<forall>x \<in> set (poll_messages (remote k (last_ts st))). last_ts st < m_timestamp x"
    and di: "distinct (poll_messages (remote k (last_ts st)))"
    and inv: "\<forall>x \<in> set (dispatched st). m_timestamp x \<le> last_ts st"
    and old: "distinct (dispatched st)"
  shows "distinct (dispatched (snd (poll_cycle remote name k st)))"
proof -
  from poll_cycle_prefix [of remote k st name] obtain pre post where
    ms: "poll_messages (remote k (last_ts st)) = pre @ post" and
    d: "dispatched (snd (poll_cycle remote name k st)) = dispatched st @ pre"
    by blast
  have "distinct pre" using di by (simp add: ms)
  moreover have "set (dispatched st) \<inter> set pre = {}"
  proof (rule ccontr)
    assume "set (dispatched st) \<inter> set pre \<noteq> {}"
    then obtain x where x: "x \<in> set (dispatched st)" "x \<in> set pre" by blast
    from x(2) gt have "last_ts st < m_timestamp x" by (simp add: ms)
    with x(1) inv show False by force
  qed
  ultimately show ?thesis using old by (simp add: d)
qed

lemma poll_loop_bound:
  assumes ge: "\<forall>j s. \<forall>x \<in> set (poll_messages (remote j s)). s \<le> m_timestamp x"
    and so: "\<forall>j s. sorted (map m_timestamp (poll_messages (remote j s)))"
    and inv: "\<forall>x \<in> set (dispatched st). m_timestamp x \<le> last_ts st"
  shows "\<forall>x \<in> set (dispatched (snd (poll_loop remote name k n st))).
           m_timestamp x \<le> last_ts (snd (poll_loop remote name k n st))"
proof (induction n)
  case 0
  show ?case using inv by simp
next
  case (Suc n)
  let ?s = "snd (poll_loop remote name k n st)"
  have "\<forall>x \<in> set (dispatched (snd (poll_cycle remote name (k + n) ?s))).
           m_timestamp x \<le> last_ts (snd (poll_cycle remote name (k + n) ?s))"
    using ge so Suc.IH by (intro poll_cycle_bound) auto
  with Suc.IH poll_loop_Suc_cases [of remote name k n st] show ?case by auto
qed

lemma poll_loop_distinct:
  assumes gt: "\<forall>j s. \<forall>x \<in> set (poll_messages (remote j s)). s < m_timestamp x"
    and so: "\<forall>j s. sorted (map m_timestamp (poll_messages (remote j s)))"
    and di: "\<forall>j s. distinct (poll_messages (remote j s))"
    and inv: "\<forall>x \<in> set (dispatched st). m_timestamp x \<le> last_ts st"
    and old: "distinct (dispatched st)"
  shows "distinct (dispatched (snd (poll_loop remote name k n st)))"
proof (induction n)
  case 0
  show ?case using old by simp
next
  case (Suc n)
  let ?s = "snd (poll_loop remote name k n st)"
  have ge: "\<forall>j s. \<forall>x \<in> set (poll_messages (remote j s)). s \<le> m_timestamp x"
    using gt by force
  have b: "\<forall>x \<in> set (dispatched ?s). m_timestamp x \<le> last_ts ?s"
    by (rule poll_loop_bound [OF ge so inv])
  have "distinct (dispatched (snd (poll_cycle remote name (k + n) ?s)))"
    using gt di b Suc.IH by (intro poll_cycle_distinct) auto
  with Suc.IH poll_loop_Suc_cases [of remote name k n st] show ?case by auto
qed

text \<open>Every dispatch sets the cursor, so after any number of cycles the cursor is where it
  started or at the timestamp of the last message dispatched.\<close>

lemma poll_loop_last:
  assumes "dispatched st = [] \<or> last_ts st = m_timestamp (last (dispatched st))"
  shows "last_ts (snd (poll_loop remote name k n st)) =
     (if dispatched (snd (poll_loop remote name k n st)) = [] then last_ts st
      else m_timestamp (last (dispatched (snd (poll_loop remote name k n st)))))"
proof (induction n)
  case 0
  show ?case using assms by auto
next
  case (Suc n)
  let ?s = "snd (poll_loop remote name k n st)"
  let ?s' = "snd (poll_cycle remote name (k + n) ?s)"
  from poll_cycle_prefix [of remote "k + n" ?s name] obtain pre post where
    d: "dispatched ?s' = dispatched ?s @ pre" and
    l: "last_ts ?s' = (if pre = [] then last_ts ?s else m_timestamp (last pre))"
    by blast
  have c: "last_ts ?s' = (if dispatched ?s' = [] then last_ts st else m_timestamp (last (dispatched ?s')))"
    using Suc.IH d l by (cases "pre = []") auto
  from poll_loop_Suc_cases [of remote name k n st] show ?case
  proof
    assume "snd (poll_loop remote name k (Suc n) st) = ?s"
    with Suc.IH show ?thesis by simp
  next
    assume "snd (poll_loop remote name k (Suc n) st) = ?s'"
    with c show ?thesis by simp
  qed
qed

text \<open>
  C4, as stated, fails on the loop, which sets the cursor to the timestamp of each message
  as it is dispatched and neither sorts a batch nor compares a timestamp with the cursor.
  With the batch of timestamps 5, 3 the cursor ends at 3, below the maximum 5 of the batch and
  below the timestamp of a message already dispatched; with a farewell at timestamp 2 before
  a message at 4 the loop returns with the cursor at 2; and a fetched message of timestamp 5
  takes the cursor from 10 back to 5.
\<close>

theorem C4_cursor_counterexample:
  "last_ts (snd (poll_cycle (\<lambda>k since. \<lparr>pr_success = True, pr_messages = Some
       [\<lparr>m_from = ''user'', m_text = ''a'', m_timestamp = 5\<rparr>,
        \<lparr>m_from = ''user'', m_text = ''b'', m_timestamp = 3\<rparr>]\<rparr>) ''A'' 0
       \<lparr>last_ts = 1, trace = [], dispatched = []\<rparr>)) = 3
   \<and> last_ts (snd (poll_cycle (\<lambda>k since. \<lparr>pr_success = True, pr_messages = Some
       [\<lparr>m_from = ''user'', m_text = ''bye'', m_timestamp = 2\<rparr>,
        \<lparr>m_from = ''user'', m_text = ''hi'', m_timestamp = 4\<rparr>]\<rparr>) ''A'' 0
       \<lparr>last_ts = 1, trace = [], dispatched = []\<rparr>)) = 2
   \<and> last_ts (snd (poll_cycle (\<lambda>k since. \<lparr>pr_success = True, pr_messages = Some
       [\<lparr>m_from = ''user'', m_text = ''a'', m_timestamp = 5\<rparr>]\<rparr>) ''A'' 0
       \<lparr>last_ts = 10, trace = [], dispatched = []\<rparr>)) = 5"
proof -
  have a: "\<not> is_farewell ''a''" by code_simp
  have b: "\<not> is_farewell ''b''" by code_simp
  have c: "is_farewell ''bye''" by code_simp
  show ?thesis
    by (simp add: poll_cycle_def poll_messages_def poll_handle_def send_message_def a b c)
qed

text \<open>
  C4, amended. Every dispatch of a message sets the cursor to the timestamp of that message,
  so after any number of cycles the cursor is the value it started with, the clock reading of
  line 97, when nothing has been dispatched, and the timestamp of the message dispatched last
  otherwise. So (1) when a non-empty batch is in non-decreasing timestamp order and has no
  farewell before its last message, the cursor after the cycle is the maximum timestamp of
  the batch; (2) when the
  remote returns no user message older than the \<open>since\<close> it is asked with, the cursor after
  one more cycle is at least the cursor before it; (3) when moreover every batch is in
  non-decreasing timestamp order, the cursor is never below the timestamp of a message
  already dispatched.
\<close>

theorem C4_cursor_amended:
  "last_ts (snd (poll_handle name msg s)) = m_timestamp msg
   \<and> dispatched (snd (poll_handle name msg s)) = dispatched s @ [msg]
   \<and> ((dispatched st = [] \<or> last_ts st = m_timestamp (last (dispatched st)))
    \<longrightarrow> last_ts (snd (poll_loop remote name k n st)) =
          (if dispatched (snd (poll_loop remote name k n st)) = [] then last_ts st
           else m_timestamp (last (dispatched (snd (poll_loop remote name k n st))))))
   \<and> (poll_messages (remote k (last_ts st)) \<noteq> [] \<and>
    sorted (map m_timestamp (poll_messages (remote k (last_ts st)))) \<and>
    (\<forall>x \<in> set (butlast (poll_messages (remote k (last_ts st)))). \<not> is_farewell (m_text x))
    \<longrightarrow> last_ts (snd (poll_cycle remote name k st)) =
          Max (m_timestamp ` set (poll_messages (remote k (last_ts st)))))
   \<and> ((\<forall>j s. \<forall>x \<in> set (poll_messages (remote j s)). s \<le> m_timestamp x)
    \<longrightarrow> last_ts (snd (poll_loop remote name k n st)) \<le> last_ts (snd (poll_loop remote name k (Suc n) st)))
   \<and> ((\<forall>j s. \<forall>x \<in> set (poll_messages (remote j s)). s \<le> m_timestamp x) \<and>
       (\<forall>j s. sorted (map m_timestamp (poll_messages (remote j s)))) \<and>
       (\<forall>x \<in> set (dispatched st). m_timestamp x \<le> last_ts st)
    \<longrightarrow> (\<forall>x \<in> set (dispatched (snd (poll_loop remote name k n st))).
           m_timestamp x \<le> last_ts (snd (poll_loop remote name k n st))))"
proof (intro conjI impI)
  show "last_ts (snd (poll_handle name msg s)) = m_timestamp msg"
    by (simp add: poll_handle_def send_message_def Let_def)
  show "dispatched (snd (poll_handle name msg s)) = dispatched s @ [msg]"
    by (simp add: poll_handle_def send_message_def Let_def)
next
  assume "dispatched st = [] \<or> last_ts st = m_timestamp (last (dispatched st))"
  then show "last_ts (snd (poll_loop remote name k n st)) =
          (if dispatched (snd (poll_loop remote name k n st)) = [] then last_ts st
           else m_timestamp (last (dispatched (snd (poll_loop remote name k n st)))))"
    by (rule poll_loop_last)
next
  let ?ms = "poll_messages (remote k (last_ts st))"
  let ?st = "st\<lparr>trace := trace st @ [Sleep POLL_INTERVAL, GetMessages (last_ts st)]\<rparr>"
  assume h: "?ms \<noteq> [] \<and> sorted (map m_timestamp ?ms) \<and>
    (\<forall>x \<in> set (butlast ?ms). \<not> is_farewell (m_text x))"
  then have ne: "?ms \<noteq> []" and so: "sorted (map m_timestamp ?ms)"
    and nf: "\<forall>x \<in> set (butlast ?ms). \<not> is_farewell (m_text x)" by auto
  have sp: "?ms = butlast ?ms @ last ?ms # []" using ne by simp
  have "last_ts (snd (for_msgs name ?ms ?st)) = m_timestamp (last ?ms)"
  proof (cases "is_farewell (m_text (last ?ms))")
    case True
    have "for_msgs name (butlast ?ms @ last ?ms # []) ?st =
       (Returned, ?st\<lparr>last_ts := m_timestamp (last ?ms),
          dispatched := dispatched ?st @ butlast ?ms @ [last ?ms],
          trace := trace ?st @ map (\<lambda>m. PostMessage (''Received: '' @ m_text m) (Some name)) (butlast ?ms)
                     @ [PostMessage ''Goodbye! Disconnecting.'' (Some name)]\<rparr>)"
      by (rule for_msgs_farewell [OF nf True])
    then show ?thesis using sp by simp
  next
    case False
    have "\<forall>m \<in> set ?ms. \<not> is_farewell (m_text m)"
    proof
      fix m assume "m \<in> set ?ms"
      then have "m \<in> set (butlast ?ms) \<or> m = last ?ms" using sp
        by (metis Un_iff insert_iff list.set(2) set_append empty_iff list.set(1))
      with nf False show "\<not> is_farewell (m_text m)" by auto
    qed
    from for_msgs_all [OF this, of name ?st] show ?thesis using ne by simp
  qed
  then show "last_ts (snd (poll_cycle remote name k st)) = Max (m_timestamp ` set ?ms)"
    by (simp add: poll_cycle_def sorted_last_Max [OF so ne])
next
  assume ge: "\<forall>j s. \<forall>x \<in> set (poll_messages (remote j s)). s \<le> m_timestamp x"
  let ?s = "snd (poll_loop remote name k n st)"
  have "last_ts ?s \<le> last_ts (snd (poll_cycle remote name (k + n) ?s))"
    using ge by (intro poll_cycle_mono) auto
  with poll_loop_Suc_cases [of remote name k n st]
  show "last_ts ?s \<le> last_ts (snd (poll_loop remote name k (Suc n) st))" by auto
next
  assume h: "(\<forall>j s. \<forall>x \<in> set (poll_messages (remote j s)). s \<le> m_timestamp x) \<and>
       (\<forall>j s. sorted (map m_timestamp (poll_messages (remote j s)))) \<and>
       (\<forall>x \<in> set (dispatched st). m_timestamp x \<le> last_ts st)"
  show "\<forall>x \<in> set (dispatched (snd (poll_loop remote name k n st))).
           m_timestamp x \<le> last_ts (snd (poll_loop remote name k n st))"
    using h by (intro poll_loop_bound) auto
qed

theorem C4_cursor_amended_witness:
  "poll_messages ((\<lambda>k since. \<lparr>pr_success = True, pr_messages = Some (filter (\<lambda>m. since < m_timestamp m)
       [\<lparr>m_from = ''user'', m_text = ''hi'', m_timestamp = 11\<rparr>,
        \<lparr>m_from = ''user'', m_text = ''yo'', m_timestamp = 12\<rparr>])\<rparr>) 0 10)
     = [\<lparr>m_from = ''user'', m_text = ''hi'', m_timestamp = 11\<rparr>,
        \<lparr>m_from = ''user'', m_text = ''yo'', m_timestamp = 12\<rparr>]
   \<and> last_ts (snd (poll_cycle (\<lambda>k since. \<lparr>pr_success = True, pr_messages = Some (filter (\<lambda>m. since < m_timestamp m)
       [\<lparr>m_from = ''user'', m_text = ''hi'', m_timestamp = 11\<rparr>,
        \<lparr>m_from = ''user'', m_text = ''yo'', m_timestamp = 12\<rparr>])\<rparr>) ''A'' 0
       \<lparr>last_ts = 10, trace = [], dispatched = []\<rparr>)) = 12
   \<and> last_ts (snd (poll_loop (\<lambda>k since. \<lparr>pr_success = True, pr_messages = Some (filter (\<lambda>m. since < m_timestamp m)
       [\<lparr>m_from = ''user'', m_text = ''hi'', m_timestamp = 11\<rparr>,
        \<lparr>m_from = ''user'', m_text = ''yo'', m_timestamp = 12\<rparr>])\<rparr>) ''A'' 0 (Suc 0)
       \<lparr>last_ts = 10, trace = [], dispatched = []\<rparr>))
     \<le> last_ts (snd (poll_loop (\<lambda>k since. \<lparr>pr_success = True, pr_messages = Some (filter (\<lambda>m. since < m_timestamp m)
       [\<lparr>m_from = ''user'', m_text = ''hi'', m_timestamp = 11\<rparr>,
        \<lparr>m_from = ''user'', m_text = ''yo'', m_timestamp = 12\<rparr>])\<rparr>) ''A'' 0 (Suc (Suc 0))
       \<lparr>last_ts = 10, trace = [], dispatched = []\<rparr>))
   \<and> list_all (\<lambda>x. m_timestamp x \<le> last_ts (snd (poll_loop (\<lambda>k since. \<lparr>pr_success = True, pr_messages = Some (filter (\<lambda>m. since < m_timestamp m)
       [\<lparr>m_from = ''user'', m_text = ''hi'', m_timestamp = 11\<rparr>,
        \<lparr>m_from = ''user'', m_text = ''yo'', m_timestamp = 12\<rparr>])\<rparr>) ''A'' 0 (Suc (Suc 0))
       \<lparr>last_ts = 10, trace = [], dispatched = []\<rparr>)))
      (dispatched (snd (poll_loop (\<lambda>k since. \<lparr>pr_success = True, pr_messages = Some (filter (\<lambda>m. since < m_timestamp m)
       [\<lparr>m_from = ''user'', m_text = ''hi'', m_timestamp = 11\<rparr>,
        \<lparr>m_from = ''user'', m_text = ''yo'', m_timestamp = 12\<rparr>])\<rparr>) ''A'' 0 (Suc (Suc 0))
       \<lparr>last_ts = 10, trace = [], dispatched = []\<rparr>)))
   \<and> last_ts (snd (poll_loop (\<lambda>k since. \<lparr>pr_success = True, pr_messages = Some (filter (\<lambda>m. since < m_timestamp m)
       [\<lparr>m_from = ''user'', m_text = ''hi'', m_timestamp = 11\<rparr>,
        \<lparr>m_from = ''user'', m_text = ''yo'', m_timestamp = 12\<rparr>])\<rparr>) ''A'' 0 (Suc (Suc 0))
       \<lparr>last_ts = 10, trace = [], dispatched = []\<rparr>))
     = m_timestamp (last (dispatched (snd (poll_loop (\<lambda>k since. \<lparr>pr_success = True, pr_messages = Some (filter (\<lambda>m. since < m_timestamp m)
       [\<lparr>m_from = ''user'', m_text = ''hi'', m_timestamp = 11\<rparr>,
        \<lparr>m_from = ''user'', m_text = ''yo'', m_timestamp = 12\<rparr>])\<rparr>) ''A'' 0 (Suc (Suc 0))
       \<lparr>last_ts = 10, trace = [], dispatched = []\<rparr>))))"
  (is "poll_messages (?R 0 10) = ?ms \<and> last_ts (snd (poll_cycle ?R ''A'' 0 ?S)) = 12 \<and> ?mono \<and> ?bound \<and> ?last")
proof -
  have ms: "poll_messages (?R 0 (last_ts ?S)) = ?ms" by (simp add: poll_messages_def)
  have ge: "\<forall>j s. \<forall>x \<in> set (poll_messages (?R j s)). s \<le> m_timestamp x"
    by (auto simp: poll_messages_def)
  have so: "\<forall>j s. sorted (map m_timestamp (poll_messages (?R j s)))"
    by (auto simp: poll_messages_def)
  have a: "\<not> is_farewell ''hi''" by code_simp
  have ne: "poll_messages (?R 0 (last_ts ?S)) \<noteq> [] \<and>
    sorted (map m_timestamp (poll_messages (?R 0 (last_ts ?S)))) \<and>
    (\<forall>x \<in> set (butlast (poll_messages (?R 0 (last_ts ?S)))). \<not> is_farewell (m_text x))"
    unfolding ms using a by simp
  have inv: "\<forall>x \<in> set (dispatched ?S). m_timestamp x \<le> last_ts ?S" by simp
  note t = C4_cursor_amended [where remote = ?R and k = 0 and st = ?S and name = "''A''" and n = "Suc 0"]
  note u = C4_cursor_amended [where remote = ?R and k = 0 and st = ?S and name = "''A''" and n = "Suc (Suc 0)"]
  have 1: "last_ts (snd (poll_cycle ?R ''A'' 0 ?S)) = Max (m_timestamp ` set (poll_messages (?R 0 (last_ts ?S))))"
    using t ne by blast
  have 2: ?mono using t ge by blast
  have 3: ?bound using u ge so inv unfolding list_all_iff by blast
  have "Max (m_timestamp ` set ?ms) = 12" by simp
  with 1 have 4: "last_ts (snd (poll_cycle ?R ''A'' 0 ?S)) = 12" unfolding ms by simp
  have e: "dispatched ?S = [] \<or> last_ts ?S = m_timestamp (last (dispatched ?S))" by simp
  have b: "\<not> is_farewell ''yo''" by code_simp
  have "dispatched (snd (poll_loop ?R ''A'' 0 (Suc (Suc 0)) ?S)) = ?ms"
    by (simp add: poll_cycle_def poll_messages_def poll_handle_def send_message_def a b)
  then have ne2: "dispatched (snd (poll_loop ?R ''A'' 0 (Suc (Suc 0)) ?S)) \<noteq> []" by simp
  have 5: ?last using u e ne2 by presburger
  have ms': "poll_messages (?R 0 10) = ?ms" using ms by simp
  from ms' 4 2 3 5 show ?thesis by (intro conjI)
qed

text \<open>
  C5, as stated, fails on the loop. The remote below honours \<open>since\<close> as a strict lower bound
  and returns the message of timestamp 5 before the one of timestamp 3: after the first cycle
  the cursor is 3, so the second fetch returns the message of timestamp 5 again and it is
  dispatched a second time.
\<close>

theorem C5_no_duplicate_counterexample:
  "(\<forall>k s. list_all (\<lambda>m. s < m_timestamp m)
      (poll_messages ((\<lambda>k since. \<lparr>pr_success = True, pr_messages = Some (filter (\<lambda>m. since < m_timestamp m)
         [\<lparr>m_from = ''user'', m_text = ''a'', m_timestamp = 5\<rparr>,
          \<lparr>m_from = ''user'', m_text = ''b'', m_timestamp = 3\<rparr>])\<rparr>) k s)))
   \<and> dispatched (snd (poll_loop (\<lambda>k since. \<lparr>pr_success = True, pr_messages = Some (filter (\<lambda>m. since < m_timestamp m)
         [\<lparr>m_from = ''user'', m_text = ''a'', m_timestamp = 5\<rparr>,
          \<lparr>m_from = ''user'', m_text = ''b'', m_timestamp = 3\<rparr>])\<rparr>) ''A'' 0 (Suc (Suc 0))
       \<lparr>last_ts = 0, trace = [], dispatched = []\<rparr>))
     = [\<lparr>m_from = ''user'', m_text = ''a'', m_timestamp = 5\<rparr>,
        \<lparr>m_from = ''user'', m_text = ''b'', m_timestamp = 3\<rparr>,
        \<lparr>m_from = ''user'', m_text = ''a'', m_timestamp = 5\<rparr>]"
proof -
  have a: "\<not> is_farewell ''a''" by code_simp
  have b: "\<not> is_farewell ''b''" by code_simp
  show ?thesis
    by (auto simp: list_all_iff poll_cycle_def poll_messages_def poll_handle_def send_message_def a b)
qed

text \<open>
  C5, amended: when the remote treats \<open>since\<close> as a strict lower bound, returns every batch
  in non-decreasing timestamp order and lists no message twice in a batch, then, from the
  start of the session and for every number of cycles and every way the remote spreads the
  messages over the fetches, no message is dispatched twice.
\<close>

theorem C5_no_duplicate_amended:
  assumes "\<forall>j s. \<forall>x \<in> set (poll_messages (remote j s)). s < m_timestamp x"
    and "\<forall>j s. sorted (map m_timestamp (poll_messages (remote j s)))"
    and "\<forall>j s. distinct (poll_messages (remote j s))"
    and "dispatched st = []"
  shows "distinct (dispatched (snd (poll_loop remote name k n st)))"
  using assms by (intro poll_loop_distinct) auto

theorem C5_no_duplicate_amended_witness:
  "dispatched (snd (poll_loop (\<lambda>k since. \<lparr>pr_success = True, pr_messages = Some (filter (\<lambda>m. since < m_timestamp m)
       (take (Suc k) [\<lparr>m_from = ''user'', m_text = ''a'', m_timestamp = 3\<rparr>,
          \<lparr>m_from = ''user'', m_text = ''b'', m_timestamp = 5\<rparr>,
          \<lparr>m_from = ''user'', m_text = ''c'', m_timestamp = 5\<rparr>]))\<rparr>) ''A'' 0 (Suc (Suc (Suc 0)))
       \<lparr>last_ts = 0, trace = [], dispatched = []\<rparr>))
     = [\<lparr>m_from = ''user'', m_text = ''a'', m_timestamp = 3\<rparr>,
        \<lparr>m_from = ''user'', m_text = ''b'', m_timestamp = 5\<rparr>]
   \<and> distinct (dispatched (snd (poll_loop (\<lambda>k since. \<lparr>pr_success = True, pr_messages = Some (filter (\<lambda>m. since < m_timestamp m)
       (take (Suc k) [\<lparr>m_from = ''user'', m_text = ''a'', m_timestamp = 3\<rparr>,
          \<lparr>m_from = ''user'', m_text = ''b'', m_timestamp = 5\<rparr>,
          \<lparr>m_from = ''user'', m_text = ''c'', m_timestamp = 5\<rparr>]))\<rparr>) ''A'' 0 (Suc (Suc (Suc 0)))
       \<lparr>last_ts = 0, trace = [], dispatched = []\<rparr>)))"
  (is "dispatched (snd (poll_loop ?R ''A'' 0 ?n ?S)) = ?d \<and> _")
proof -
  let ?store = "[\<lparr>m_from = ''user'', m_text = ''a'', m_timestamp = 3\<rparr>,
          \<lparr>m_from = ''user'', m_text = ''b'', m_timestamp = 5\<rparr>,
          \<lparr>m_from = ''user'', m_text = ''c'', m_timestamp = 5\<rparr>]"
  have pm: "\<And>j s. poll_messages (?R j s) =
      filter (\<lambda>m. m_from m = ''user'') (filter (\<lambda>m. s < m_timestamp m) (take (Suc j) ?store))"
    by (simp only: poll_messages_def poll_result.simps option.simps if_False not_True_eq_False)
  have so0: "sorted_wrt (\<lambda>x y. m_timestamp x \<le> m_timestamp y) ?store" by simp
  have di0: "distinct ?store" by simp
  have gt: "\<forall>j s. \<forall>x \<in> set (poll_messages (?R j s)). s < m_timestamp x"
    unfolding pm by (simp only: set_filter) blast
  have so: "\<forall>j s. sorted (map m_timestamp (poll_messages (?R j s)))"
    unfolding pm sorted_map
    by (intro allI sorted_wrt_filter sorted_wrt_take so0)
  have di: "\<forall>j s. distinct (poll_messages (?R j s))"
    unfolding pm by (intro allI distinct_filter distinct_take di0)
  have e: "dispatched ?S = []" by simp
  have 1: "distinct (dispatched (snd (poll_loop ?R ''A'' 0 ?n ?S)))"
    by (rule C5_no_duplicate_amended [OF gt so di e])
  have a: "\<not> is_farewell ''a''" by code_simp
  have b: "\<not> is_farewell ''b''" by code_simp
  have 2: "dispatched (snd (poll_loop ?R ''A'' 0 ?n ?S)) = ?d"
    by (simp add: poll_cycle_def poll_messages_def poll_handle_def send_message_def a b)
  from 1 2 show ?thesis by (simp only: simp_thms)
qed

section \<open>The frame loop\<close>

subsection \<open>Chunk boundaries\<close>

text \<open>\<open>read1\<close> returns the first byte of the body, whatever the chunks are.\<close>

lemma read1_None: "read1 resp = None \<longleftrightarrow> concat resp = []"
  by (induction resp rule: read1.induct) auto

lemma read1_Some: "read1 resp = Some (b, resp') \<Longrightarrow> concat resp = b # concat resp'"
  by (induction resp rule: read1.induct) auto

lemma listen_loop_concat:
  "concat resp = body \<Longrightarrow> concat resp' = body \<Longrightarrow>
   listen_loop loads resp st = listen_loop loads resp' st"
proof (induction body arbitrary: resp resp' st)
  case Nil
  then have "read1 resp = None" "read1 resp' = None" by (simp_all add: read1_None)
  then show ?case by (simp add: listen_loop.simps [of loads resp] listen_loop.simps [of loads resp'])
next
  case (Cons b body)
  from Cons.prems(1) obtain r where r: "read1 resp = Some (b, r)" and cr: "concat r = body"
    by (cases "read1 resp") (auto simp: read1_None dest: read1_Some)
  from Cons.prems(2) obtain r' where r': "read1 resp' = Some (b, r')" and cr': "concat r' = body"
    by (cases "read1 resp'") (auto simp: read1_None dest: read1_Some)
  show ?case
  proof (cases "sse_iter loads b st")
    case (Pair out st')
    show ?thesis
    proof (cases out)
      case Running
      have "listen_loop loads resp st = listen_loop loads r st'"
        using r Pair Running by (simp add: listen_loop.simps [of loads resp])
      moreover have "listen_loop loads resp' st = listen_loop loads r' st'"
        using r' Pair Running by (simp add: listen_loop.simps [of loads resp'])
      moreover have "listen_loop loads r st' = listen_loop loads r' st'"
        by (rule Cons.IH [OF cr cr'])
      ultimately show ?thesis by simp
    qed (use r r' Pair in \<open>simp_all add: listen_loop.simps [of loads resp] listen_loop.simps [of loads resp']\<close>)
  qed
qed

text \<open>
  C3: the frame loop reads the body one byte at a time, so for every two ways of cutting the
  same bytes into delivery chunks, one byte per chunk among them, it ends in the same state:
  the same events decoded in the same order, the same requests sent, the same frames, the
  same buffer and the same outcome.
\<close>

theorem C3_chunk_invariance:
  assumes "concat resp = concat resp'"
  shows "listen_loop loads resp st = listen_loop loads resp' st"
  by (rule listen_loop_concat [of resp "concat resp'"]) (simp_all add: assms)

theorem C3_chunk_invariance_witness:
  "listen_loop json_loads [''d'', ''a'', ''t'', ''a'', '':'', '' '', ''7'', ''\<newline>'', ''\<newline>'']
       \<lparr>buffer = [], sent = [], frames = [], decoded = []\<rparr>
     = listen_loop json_loads [''data: 7\<newline>\<newline>''] \<lparr>buffer = [], sent = [], frames = [], decoded = []\<rparr>
   \<and> listen_loop json_loads [''data: 7\<newline>\<newline>''] \<lparr>buffer = [], sent = [], frames = [], decoded = []\<rparr>
     = (Returned, \<lparr>buffer = [], sent = [], frames = [''data: 7\<newline>\<newline>''], decoded = [JInt 7]\<rparr>)"
proof -
  have "listen_loop json_loads [''data: 7\<newline>\<newline>''] \<lparr>buffer = [], sent = [], frames = [], decoded = []\<rparr>
     = (Returned, \<lparr>buffer = [], sent = [], frames = [''data: 7\<newline>\<newline>''], decoded = [JInt 7]\<rparr>)"
    by code_simp
  then show ?thesis
    using C3_chunk_invariance [of "[''d'', ''a'', ''t'', ''a'', '':'', '' '', ''7'', ''\<newline>'', ''\<newline>'']"
        "[''data: 7\<newline>\<newline>'']" json_loads "\<lparr>buffer = [], sent = [], frames = [], decoded = []\<rparr>"]
    by simp
qed

subsection \<open>Frames and the buffer\<close>

lemma endswith_iff: "endswith s p \<longleftrightarrow> (\<exists>xs. s = xs @ p)"
proof
  assume "endswith s p"
  then have "s = take (length s - length p) s @ p"
    unfolding endswith_def by (metis append_take_drop_id)
  then show "\<exists>xs. s = xs @ p" ..
next
  assume "\<exists>xs. s = xs @ p"
  then show "endswith s p" by (auto simp: endswith_def)
qed

text \<open>A substring of a string grown by one character lies in the old string or ends the
  new one.\<close>

lemma contains_snoc:
  assumes "p \<noteq> []"
  shows "contains (s @ [c]) p \<longleftrightarrow> contains s p \<or> endswith (s @ [c]) p"
proof
  assume "contains (s @ [c]) p"
  then obtain xs ys where e: "s @ [c] = xs @ p @ ys" by (auto simp: contains_iff)
  show "contains s p \<or> endswith (s @ [c]) p"
  proof (cases ys rule: rev_cases)
    case Nil
    with e have "endswith (s @ [c]) p" by (auto simp: endswith_iff)
    then show ?thesis ..
  next
    case (snoc ys' y)
    with e have "s @ [c] = (xs @ p @ ys') @ [y]" by simp
    then have "s = xs @ p @ ys'" by (simp only: append1_eq_conv)
    then have "contains s p" by (auto simp: contains_iff)
    then show ?thesis ..
  qed
next
  assume "contains s p \<or> endswith (s @ [c]) p"
  then show "contains (s @ [c]) p"
  proof
    assume "contains s p"
    then obtain xs ys where "s = xs @ p @ ys" by (auto simp: contains_iff)
    then have "s @ [c] = xs @ p @ (ys @ [c])" by simp
    then show ?thesis unfolding contains_iff by blast
  next
    assume "endswith (s @ [c]) p"
    then obtain xs where "s @ [c] = xs @ p @ []" by (auto simp: endswith_iff)
    then show ?thesis unfolding contains_iff by blast
  qed
qed

lemma endswith_snoc_nl:
  "endswith (s @ [c]) ''\<newline>\<newline>'' \<Longrightarrow> c = CHR 0x0A"
  by (auto simp: endswith_iff)

lemma decode1_cases:
  "decode1 b = [b] \<or> decode1 b = [CHR 0xEF, CHR 0xBF, CHR 0xBD]"
  by (simp add: decode1_def)

text \<open>Appending a decoded byte puts a terminator into the buffer only at its end, and then
  the byte is a newline.\<close>

lemma contains_decode1:
  "contains (s @ decode1 b) ''\<newline>\<newline>'' \<longleftrightarrow>
     contains s ''\<newline>\<newline>'' \<or> endswith (s @ decode1 b) ''\<newline>\<newline>''"
proof -
  have cs: "contains (t @ [c]) ''\<newline>\<newline>'' \<longleftrightarrow>
      contains t ''\<newline>\<newline>'' \<or> endswith (t @ [c]) ''\<newline>\<newline>''" for t c
    by (rule contains_snoc) simp
  from decode1_cases [of b] show ?thesis
  proof
    assume "decode1 b = [b]"
    then show ?thesis by (simp add: cs)
  next
    assume d: "decode1 b = [CHR 0xEF, CHR 0xBF, CHR 0xBD]"
    have 1: "\<not> endswith (s @ [CHR 0xEF]) ''\<newline>\<newline>''" using endswith_snoc_nl by fastforce
    have 2: "\<not> endswith ((s @ [CHR 0xEF]) @ [CHR 0xBF]) ''\<newline>\<newline>''" using endswith_snoc_nl by fastforce
    have 3: "\<not> endswith (((s @ [CHR 0xEF]) @ [CHR 0xBF]) @ [CHR 0xBD]) ''\<newline>\<newline>''"
      using endswith_snoc_nl by fastforce
    have "contains (((s @ [CHR 0xEF]) @ [CHR 0xBF]) @ [CHR 0xBD]) ''\<newline>\<newline>'' \<longleftrightarrow> contains s ''\<newline>\<newline>''"
      by (simp only: cs 1 2 3 simp_thms)
    with 3 show ?thesis by (simp add: d)
  qed
qed

lemma endswith_decode1:
  "endswith (s @ decode1 b) ''\<newline>\<newline>'' \<Longrightarrow> decode1 b = [CHR 0x0A]"
proof -
  assume e: "endswith (s @ decode1 b) ''\<newline>\<newline>''"
  from decode1_cases [of b] show ?thesis
  proof
    assume d: "decode1 b = [b]"
    with e endswith_snoc_nl [of s b] show ?thesis by simp
  next
    assume d: "decode1 b = [CHR 0xEF, CHR 0xBF, CHR 0xBD]"
    with e have "endswith ((s @ [CHR 0xEF, CHR 0xBF]) @ [CHR 0xBD]) ''\<newline>\<newline>''" by simp
    then have "CHR 0xBD = CHR 0x0A" by (rule endswith_snoc_nl)
    then show ?thesis by simp
  qed
qed

text \<open>The \<open>for\<close> loop over the lines touches neither the buffer nor the record of frames.\<close>

lemma process_line_keeps:
  "buffer (snd (process_line loads line st)) = buffer st \<and>
   frames (snd (process_line loads line st)) = frames st"
  by (simp add: process_line_def handle_message_def send_message_sse_def Let_def
      split: sum.splits option.splits json.splits)

lemma for_lines_keeps:
  "buffer (snd (for_lines loads ls st)) = buffer st \<and>
   frames (snd (for_lines loads ls st)) = frames st"
proof (induction ls arbitrary: st)
  case Nil
  show ?case by simp
next
  case (Cons l ls)
  show ?case
  proof (cases "process_line loads l st")
    case (Pair out st')
    with process_line_keeps [of loads l st]
    have k: "buffer st' = buffer st \<and> frames st' = frames st" by simp
    show ?thesis
      using Pair k Cons.IH [of st'] by (cases out) simp_all
  qed
qed

text \<open>Nothing in the frame loop returns from \<open>listen_sse\<close> before the end of the body: a
  line ends the run only by \<open>sys.exit\<close> or by an exception.\<close>

lemma process_line_not_Returned: "fst (process_line loads line st) \<noteq> Returned"
  by (simp add: process_line_def handle_message_def Let_def
      split: sum.splits option.splits json.splits)

lemma for_lines_not_Returned: "fst (for_lines loads ls st) \<noteq> Returned"
proof (induction ls arbitrary: st)
  case Nil
  show ?case by simp
next
  case (Cons l ls)
  show ?case
  proof (cases "process_line loads l st")
    case (Pair out st')
    with process_line_not_Returned [of loads l st] have "out \<noteq> Returned" by simp
    with Pair Cons.IH [of st'] show ?thesis by (cases out) simp_all
  qed
qed

lemma sse_iter_not_Returned: "fst (sse_iter loads b st) \<noteq> Returned"
proof -
  let ?buf = "buffer st @ decode1 b"
  let ?st = "st\<lparr>buffer := ?buf, frames := frames st @ [?buf]\<rparr>"
  obtain out st' where r: "for_lines loads (split_nl (strip ?buf)) ?st = (out, st')"
    by (cases "for_lines loads (split_nl (strip ?buf)) ?st")
  with for_lines_not_Returned [of loads "split_nl (strip ?buf)" ?st] have "out \<noteq> Returned" by simp
  with r show ?thesis by (cases out) (simp_all add: sse_iter_def Let_def)
qed

text \<open>One iteration either extracts the buffer, grown by the byte, as a frame or keeps it.\<close>

lemma sse_iter_extract:
  assumes "endswith (buffer st @ decode1 b) ''\<newline>\<newline>''"
  shows "frames (snd (sse_iter loads b st)) = frames st @ [buffer st @ decode1 b]"
    and "fst (sse_iter loads b st) = Running \<Longrightarrow> buffer (snd (sse_iter loads b st)) = []"
proof -
  let ?buf = "buffer st @ decode1 b"
  let ?st = "st\<lparr>buffer := ?buf, frames := frames st @ [?buf]\<rparr>"
  obtain out st' where r: "for_lines loads (split_nl (strip ?buf)) ?st = (out, st')"
    by (cases "for_lines loads (split_nl (strip ?buf)) ?st")
  from for_lines_keeps [of loads "split_nl (strip ?buf)" ?st] r
  have k: "frames st' = frames st @ [?buf]" by simp
  show "frames (snd (sse_iter loads b st)) = frames st @ [?buf]"
    using assms r k by (cases out) (simp_all add: sse_iter_def Let_def)
  show "fst (sse_iter loads b st) = Running \<Longrightarrow> buffer (snd (sse_iter loads b st)) = []"
    using assms r by (cases out) (simp_all add: sse_iter_def Let_def)
qed

lemma sse_iter_keep:
  assumes "\<not> endswith (buffer st @ decode1 b) ''\<newline>\<newline>''"
  shows "sse_iter loads b st = (Running, st\<lparr>buffer := buffer st @ decode1 b\<rparr>)"
  using assms by (simp add: sse_iter_def Let_def)

text \<open>What an iteration that goes on keeps true: the frames and the buffer together are the
  text decoded so far, every frame ends with its only terminator, and the buffer holds
  none.\<close>

lemma sse_iter_partition:
  assumes run: "sse_iter loads b st = (Running, st')"
    and nb: "\<not> contains (buffer st) ''\<newline>\<newline>''"
    and fr: "list_all (\<lambda>f. endswith f ''\<newline>\<newline>'' \<and> \<not> contains (butlast f) ''\<newline>\<newline>'') (frames st)"
  shows "concat (frames st') @ buffer st' = concat (frames st) @ buffer st @ decode1 b
       \<and> \<not> contains (buffer st') ''\<newline>\<newline>''
       \<and> list_all (\<lambda>f. endswith f ''\<newline>\<newline>'' \<and> \<not> contains (butlast f) ''\<newline>\<newline>'') (frames st')"
proof (cases "endswith (buffer st @ decode1 b) ''\<newline>\<newline>''")
  case True
  from sse_iter_extract [OF True, of loads] run
  have f: "frames st' = frames st @ [buffer st @ decode1 b]" and e: "buffer st' = []" by simp_all
  have "decode1 b = [CHR 0x0A]" using True by (rule endswith_decode1)
  then have "butlast (buffer st @ decode1 b) = buffer st" by simp
  with nb True fr f e show ?thesis by simp
next
  case False
  from sse_iter_keep [OF False, of loads] run
  have s: "st' = st\<lparr>buffer := buffer st @ decode1 b\<rparr>" by simp
  have "\<not> contains (buffer st @ decode1 b) ''\<newline>\<newline>''"
    using nb False by (simp add: contains_decode1)
  with fr show ?thesis by (simp add: s)
qed

lemma listen_loop_partition:
  assumes "concat resp = body"
    and "listen_loop loads resp st = (Returned, st')"
    and "\<not> contains (buffer st) ''\<newline>\<newline>''"
    and "list_all (\<lambda>f. endswith f ''\<newline>\<newline>'' \<and> \<not> contains (butlast f) ''\<newline>\<newline>'') (frames st)"
  shows "concat (frames st') @ buffer st' = concat (frames st) @ buffer st @ concat (map decode1 body)
       \<and> \<not> contains (buffer st') ''\<newline>\<newline>''
       \<and> list_all (\<lambda>f. endswith f ''\<newline>\<newline>'' \<and> \<not> contains (butlast f) ''\<newline>\<newline>'') (frames st')"
  using assms
proof (induction body arbitrary: resp st)
  case Nil
  then have "read1 resp = None" by (simp add: read1_None)
  with Nil.prems(2) have "st' = st" by (simp add: listen_loop.simps [of loads resp])
  with Nil.prems show ?case by simp
next
  case (Cons b body)
  from Cons.prems(1) obtain r where r: "read1 resp = Some (b, r)" and cr: "concat r = body"
    by (cases "read1 resp") (auto simp: read1_None dest: read1_Some)
  obtain out s where it: "sse_iter loads b st = (out, s)" by (cases "sse_iter loads b st")
  have "out \<noteq> Returned" using sse_iter_not_Returned [of loads b st] it by simp
  then have out: "out = Running"
    using Cons.prems(2) r it by (cases out) (simp_all add: listen_loop.simps [of loads resp])
  have next_run: "listen_loop loads r s = (Returned, st')"
    using Cons.prems(2) r it out by (simp add: listen_loop.simps [of loads resp])
  from sse_iter_partition [OF it [unfolded out] Cons.prems(3) Cons.prems(4)]
  have p: "concat (frames s) @ buffer s = concat (frames st) @ buffer st @ decode1 b"
    and nb: "\<not> contains (buffer s) ''\<newline>\<newline>''"
    and fr: "list_all (\<lambda>f. endswith f ''\<newline>\<newline>'' \<and> \<not> contains (butlast f) ''\<newline>\<newline>'') (frames s)"
    by simp_all
  from Cons.IH [OF cr next_run nb fr]
  have "concat (frames st') @ buffer st' = (concat (frames s) @ buffer s) @ concat (map decode1 body)"
    and rest: "\<not> contains (buffer st') ''\<newline>\<newline>''"
      "list_all (\<lambda>f. endswith f ''\<newline>\<newline>'' \<and> \<not> contains (butlast f) ''\<newline>\<newline>'') (frames st')"
    by simp_all
  then show ?case by (simp add: p)
qed

text \<open>
  C9: an iteration that extracts a frame and goes on leaves the buffer empty, and nothing is
  lost by that. For every body read to its end from the start of \<open>listen_sse\<close>, the frames
  extracted followed by the buffer are exactly the text decoded from the body, in order;
  every frame ends with the terminator and holds it nowhere else, so each frame was extracted
  with the byte that completed it; and the buffer holds no terminator, so it is the beginning
  of the next frame and nothing else.
\<close>

theorem C9_buffer_after_extraction:
  assumes "listen_loop loads resp st = (Returned, st')"
    and "buffer st = []" and "frames st = []"
  shows "concat (frames st') @ buffer st' = concat (map decode1 (concat resp))
       \<and> list_all (\<lambda>f. endswith f ''\<newline>\<newline>'' \<and> \<not> contains (butlast f) ''\<newline>\<newline>'') (frames st')
       \<and> \<not> contains (buffer st') ''\<newline>\<newline>''
       \<and> (\<forall>s b. endswith (buffer s @ decode1 b) ''\<newline>\<newline>'' \<and> fst (sse_iter loads b s) = Running
            \<longrightarrow> buffer (snd (sse_iter loads b s)) = [])"
proof -
  have nb: "\<not> contains (buffer st) ''\<newline>\<newline>''" by (simp add: assms(2))
  have fr: "list_all (\<lambda>f. endswith f ''\<newline>\<newline>'' \<and> \<not> contains (butlast f) ''\<newline>\<newline>'') (frames st)"
    by (simp add: assms(3))
  from listen_loop_partition [OF refl assms(1) nb fr] sse_iter_extract(2) [of _ _ loads]
  show ?thesis by (simp add: assms(2) assms(3))
qed

theorem C9_buffer_after_extraction_witness:
  "listen_loop json_loads [''data: 7\<newline>\<newline>\<newline>\<newline>da'']
       \<lparr>buffer = [], sent = [], frames = [], decoded = []\<rparr>
     = (Returned, \<lparr>buffer = ''da'', sent = [], frames = [''data: 7\<newline>\<newline>'', ''\<newline>\<newline>''], decoded = [JInt 7]\<rparr>)
   \<and> concat [''data: 7\<newline>\<newline>'', ''\<newline>\<newline>''] @ ''da'' = concat (map decode1 (concat [''data: 7\<newline>\<newline>\<newline>\<newline>da'']))
   \<and> list_all (\<lambda>f. endswith f ''\<newline>\<newline>'' \<and> \<not> contains (butlast f) ''\<newline>\<newline>'') [''data: 7\<newline>\<newline>'', ''\<newline>\<newline>'']
   \<and> \<not> contains ''da'' ''\<newline>\<newline>''"
proof -
  have run: "listen_loop json_loads [''data: 7\<newline>\<newline>\<newline>\<newline>da'']
       \<lparr>buffer = [], sent = [], frames = [], decoded = []\<rparr>
     = (Returned, \<lparr>buffer = ''da'', sent = [], frames = [''data: 7\<newline>\<newline>'', ''\<newline>\<newline>''], decoded = [JInt 7]\<rparr>)"
    by code_simp
  have c: "concat (frames \<lparr>buffer = ''da'', sent = [], frames = [''data: 7\<newline>\<newline>'', ''\<newline>\<newline>''], decoded = [JInt 7]\<rparr>)
        @ buffer \<lparr>buffer = ''da'', sent = [], frames = [''data: 7\<newline>\<newline>'', ''\<newline>\<newline>''], decoded = [JInt 7]\<rparr>
      = concat (map decode1 (concat [''data: 7\<newline>\<newline>\<newline>\<newline>da'']))
    \<and> list_all (\<lambda>f. endswith f ''\<newline>\<newline>'' \<and> \<not> contains (butlast f) ''\<newline>\<newline>'')
        (frames \<lparr>buffer = ''da'', sent = [], frames = [''data: 7\<newline>\<newline>'', ''\<newline>\<newline>''], decoded = [JInt 7]\<rparr>)
    \<and> \<not> contains (buffer \<lparr>buffer = ''da'', sent = [], frames = [''data: 7\<newline>\<newline>'', ''\<newline>\<newline>''], decoded = [JInt 7]\<rparr>) ''\<newline>\<newline>''
    \<and> (\<forall>s b. endswith (buffer s @ decode1 b) ''\<newline>\<newline>'' \<and> fst (sse_iter json_loads b s) = Running
            \<longrightarrow> buffer (snd (sse_iter json_loads b s)) = [])"
    by (rule C9_buffer_after_extraction [OF run]) simp_all
  have d: "concat [''data: 7\<newline>\<newline>'', ''\<newline>\<newline>''] @ ''da'' = concat (map decode1 (concat [''data: 7\<newline>\<newline>\<newline>\<newline>da'']))
   \<and> list_all (\<lambda>f. endswith f ''\<newline>\<newline>'' \<and> \<not> contains (butlast f) ''\<newline>\<newline>'') [''data: 7\<newline>\<newline>'', ''\<newline>\<newline>'']
   \<and> \<not> contains ''da'' ''\<newline>\<newline>''"
    using c by (simp only: sse_state.simps) (simp only: simp_thms)
  show ?thesis by (rule conjI [OF run d])
qed

subsection \<open>The lines of a frame\<close>

text \<open>A line that is no data line is passed over. A data line adds the value of its payload
  to the decoded events when the payload parses, and nothing otherwise.\<close>

lemma process_line_other:
  "\<not> startswith line ''data: '' \<Longrightarrow> process_line loads line st = (Running, st)"
  by (simp add: process_line_def)

lemma process_line_decoded:
  "decoded (snd (process_line loads line st)) =
     decoded st @ List.map_filter (\<lambda>p. case loads p of Inl e \<Rightarrow> None | Inr v \<Rightarrow> Some v)
       (map (drop 6) (filter (\<lambda>l. startswith l ''data: '') [line]))"
  by (simp add: process_line_def handle_message_def send_message_sse_def Let_def List.map_filter_simps
      split: sum.splits option.splits json.splits)

lemma for_lines_decoded:
  "prefix (decoded (snd (for_lines loads ls st)))
     (decoded st @ List.map_filter (\<lambda>p. case loads p of Inl e \<Rightarrow> None | Inr v \<Rightarrow> Some v)
        (map (drop 6) (filter (\<lambda>l. startswith l ''data: '') ls)))
   \<and> (fst (for_lines loads ls st) = Running \<longrightarrow>
        decoded (snd (for_lines loads ls st)) =
          decoded st @ List.map_filter (\<lambda>p. case loads p of Inl e \<Rightarrow> None | Inr v \<Rightarrow> Some v)
            (map (drop 6) (filter (\<lambda>l. startswith l ''data: '') ls)))"
proof (induction ls arbitrary: st)
  case Nil
  show ?case by (simp add: List.map_filter_simps)
next
  case (Cons l ls)
  let ?ev = "\<lambda>ls. List.map_filter (\<lambda>p. case loads p of Inl e \<Rightarrow> None | Inr v \<Rightarrow> Some v)
      (map (drop 6) (filter (\<lambda>l. startswith l ''data: '') ls))"
  have ev: "?ev (l # ls) = ?ev [l] @ ?ev ls"
    by (simp add: List.map_filter_simps split: sum.splits)
  obtain out st' where p: "process_line loads l st = (out, st')"
    by (cases "process_line loads l st")
  with process_line_decoded [of loads l st] have d: "decoded st' = decoded st @ ?ev [l]" by simp
  show ?case
  proof (cases out)
    case Running
    then have f: "for_lines loads (l # ls) st = for_lines loads ls st'" using p by simp
    have "prefix (decoded (snd (for_lines loads ls st'))) ((decoded st @ ?ev [l]) @ ?ev ls)
        \<and> (fst (for_lines loads ls st') = Running \<longrightarrow>
             decoded (snd (for_lines loads ls st')) = (decoded st @ ?ev [l]) @ ?ev ls)"
      using Cons.IH [of st'] unfolding d by blast
    then show ?thesis unfolding f ev append_assoc by blast
  next
    case Returned
    then have "for_lines loads (l # ls) st = (Returned, st')" using p by simp
    then show ?thesis by (simp only: d ev append_assoc fst_conv snd_conv) simp
  next
    case (SysExit n)
    then have "for_lines loads (l # ls) st = (SysExit n, st')" using p by simp
    then show ?thesis by (simp only: d ev append_assoc fst_conv snd_conv) simp
  next
    case (Uncaught e)
    then have "for_lines loads (l # ls) st = (Uncaught e, st')" using p by simp
    then show ?thesis by (simp only: d ev append_assoc fst_conv snd_conv) simp
  qed
qed

text \<open>A frame on each of whose data lines \<open>json.loads\<close> raises \<open>JSONDecodeError\<close> leaves the
  state as it is.\<close>

lemma for_lines_all_fail:
  "\<forall>l \<in> set ls. startswith l ''data: '' \<longrightarrow> loads (drop 6 l) = Inl JSONDecodeError \<Longrightarrow>
   for_lines loads ls st = (Running, st)"
proof (induction ls)
  case Nil
  show ?case by simp
next
  case (Cons l ls)
  have "process_line loads l st = (Running, st)"
    using Cons.prems by (simp add: process_line_def)
  with Cons show ?case by simp
qed

text \<open>What the string operations of the loop do to a frame of one line.\<close>

lemma split_nl_one_line: "CHR 0x0A \<notin> set s \<Longrightarrow> split_nl s = [s]"
  by (induction s) auto

lemma strip_core:
  assumes "s \<noteq> []" and "\<not> is_space (hd s)" and "\<not> is_space (last s)" and "\<forall>c \<in> set w. is_space c"
  shows "strip (s @ w) = s"
proof -
  obtain a t where s: "s = a # t" using assms(1) by (cases s) auto
  have 1: "dropWhile is_space (s @ w) = s @ w" using assms(2) by (simp add: s)
  have "rev s \<noteq> []" using assms(1) by simp
  then obtain b u where r: "rev s = b # u" by (cases "rev s") auto
  have "b = last s" using r by (metis last_rev list.sel(1) rev_rev_ident)
  then have 2: "dropWhile is_space (rev s) = rev s" using assms(3) by (simp add: r)
  have "dropWhile is_space (rev w @ rev s) = dropWhile is_space (rev s)"
    by (rule dropWhile_append2) (use assms(4) in simp)
  then show ?thesis by (simp add: strip_def 1 2)
qed

text \<open>\<open>json_loads\<close> on an integer of too many digits.\<close>

lemma parse_value_long_int:
  assumes "4300 < k"
  shows "parse_value (Suc n) (replicate k CHR ''1'') = Inl ValueError"
proof -
  obtain j where k: "k = Suc j" using assms by (cases k) auto
  have d: "is_digit CHR ''1''" by (simp add: is_digit_def)
  have t: "takeWhile is_digit (CHR ''1'' # replicate j CHR ''1'') = CHR ''1'' # replicate j CHR ''1''"
    using d by (simp add: takeWhile_replicate)
  have r: "dropWhile is_digit (CHR ''1'' # replicate j CHR ''1'') = []"
    using d by (simp add: dropWhile_replicate)
  have "parse_nat (CHR ''1'' # replicate j CHR ''1'') = Inl ValueError"
    using assms unfolding parse_nat_def t r by (simp add: Let_def startswith_def k)
  then have "parse_int (CHR ''1'' # replicate j CHR ''1'') = Inl ValueError"
    by (simp add: parse_int_def)
  then show ?thesis
    by (simp add: k skip_ws_def startswith_def)
qed

lemma json_loads_long_int: "json_loads (replicate 4301 CHR ''1'') = Inl ValueError"
proof -
  have f: "2 * length (replicate 4301 CHR ''1'') + 2 = Suc (2 * 4301 + 1)" by simp
  have p: "parse_value (Suc (2 * 4301 + 1)) (replicate 4301 CHR ''1'') = Inl ValueError"
    by (rule parse_value_long_int) simp
  show ?thesis
    by (simp only: json_loads_def f p sum.case)
qed

text \<open>The last byte of a frame whose one data line holds an integer of 4301 digits.\<close>

lemma sse_iter_long_int:
  "sse_iter json_loads CHR 0x0A
     \<lparr>buffer = ''data: '' @ replicate 4301 CHR ''1'' @ ''\<newline>'', sent = [], frames = [], decoded = []\<rparr>
   = (Uncaught ValueError,
      \<lparr>buffer = ''data: '' @ replicate 4301 CHR ''1'' @ ''\<newline>\<newline>'', sent = [],
       frames = [''data: '' @ replicate 4301 CHR ''1'' @ ''\<newline>\<newline>''], decoded = []\<rparr>)"
proof -
  define s where "s = ''data: '' @ replicate 4301 CHR ''1''"
  have ne: "s \<noteq> []" by (simp add: s_def)
  have h: "\<not> is_space (hd s)" by (simp add: s_def is_space_def)
  have "last s = CHR ''1''" by (simp add: s_def)
  then have l: "\<not> is_space (last s)" by (simp add: is_space_def)
  have w: "\<forall>c \<in> set ''\<newline>\<newline>''. is_space c" by (simp add: is_space_def)
  have st: "strip (s @ ''\<newline>\<newline>'') = s" by (rule strip_core [OF ne h l w])
  have "CHR 0x0A \<notin> set s" by (simp add: s_def)
  then have sp: "split_nl s = [s]" by (rule split_nl_one_line)
  have sw: "startswith s ''data: ''" by (simp add: s_def startswith_def)
  have dr: "drop 6 s = replicate 4301 CHR ''1''" by (simp add: s_def)
  have pl: "process_line json_loads s x = (Uncaught ValueError, x)" for x
    by (simp add: process_line_def sw dr json_loads_long_int)
  have e: "endswith (s @ ''\<newline>\<newline>'') ''\<newline>\<newline>''" unfolding endswith_iff by blast
  have d: "decode1 CHR 0x0A = ''\<newline>''" by (simp add: decode1_def)
  have "sse_iter json_loads CHR 0x0A \<lparr>buffer = s @ ''\<newline>'', sent = [], frames = [], decoded = []\<rparr>
      = (Uncaught ValueError, \<lparr>buffer = s @ ''\<newline>\<newline>'', sent = [],
          frames = [s @ ''\<newline>\<newline>''], decoded = []\<rparr>)"
  proof -
    have b: "buffer \<lparr>buffer = s @ ''\<newline>'', sent = [], frames = [], decoded = []\<rparr> @ decode1 CHR 0x0A
        = s @ ''\<newline>\<newline>''" by (simp add: d)
    show ?thesis
      unfolding sse_iter_def Let_def b by (simp add: e st sp pl)
  qed
  then show ?thesis by (simp add: s_def)
qed

text \<open>
  C2, as stated, fails on the loop: it calls \<open>json.loads\<close> on the payload of each data line
  by itself and concatenates nothing. The one frame below has two data lines; each is decoded
  and each is answered, so the frame yields two decoded events.
\<close>

theorem C2_frame_counterexample:
  \<open>listen_loop json_loads
      [''data: {"from":"user","text":"a"}\<newline>data: {"from":"user","text":"b"}\<newline>\<newline>'']
      \<lparr>buffer = [], sent = [], frames = [], decoded = []\<rparr>
    = (Returned,
       \<lparr>buffer = [],
        sent = [PostMessage ''Received: a'' None, PostMessage ''Received: b'' None],
        frames = [''data: {"from":"user","text":"a"}\<newline>data: {"from":"user","text":"b"}\<newline>\<newline>''],
        decoded = [JObj [(''from'', JStr ''user''), (''text'', JStr ''a'')],
                   JObj [(''from'', JStr ''user''), (''text'', JStr ''b'')]]\<rparr>)\<close>
  by code_simp

text \<open>
  C2, amended: for every completed frame, the lines are those of the frame with the white
  space at its two ends stripped, and a line that does not begin with \<open>data: \<close> is ignored. Of
  each data line the bytes after the prefix are parsed as a JSON value of their own, in line
  order, and nothing is concatenated. When the frame is processed to its end, the events
  decoded from it are exactly the values of the data lines whose payload parses, one per such
  line and in line order; when a line ends the run before that, by \<open>sys.exit\<close> after a farewell
  or by an uncaught exception, they are an initial part of that sequence. So a frame yields
  at most one decoded event per data line: up to two for two data lines.
\<close>

theorem C2_frame_amended:
  assumes "endswith (buffer st @ decode1 b) ''\<newline>\<newline>''"
  shows "(\<forall>l s. \<not> startswith l ''data: '' \<longrightarrow> process_line loads l s = (Running, s))
       \<and> prefix (decoded (snd (sse_iter loads b st)))
           (decoded st @ List.map_filter (\<lambda>p. case loads p of Inl e \<Rightarrow> None | Inr v \<Rightarrow> Some v)
              (map (drop 6) (filter (\<lambda>l. startswith l ''data: '')
                 (split_nl (strip (buffer st @ decode1 b))))))
       \<and> (fst (sse_iter loads b st) = Running \<longrightarrow>
            decoded (snd (sse_iter loads b st)) =
              decoded st @ List.map_filter (\<lambda>p. case loads p of Inl e \<Rightarrow> None | Inr v \<Rightarrow> Some v)
                (map (drop 6) (filter (\<lambda>l. startswith l ''data: '')
                   (split_nl (strip (buffer st @ decode1 b))))))
       \<and> length (decoded (snd (sse_iter loads b st))) \<le>
            length (decoded st) +
            length (filter (\<lambda>l. startswith l ''data: '') (split_nl (strip (buffer st @ decode1 b))))"
proof -
  let ?buf = "buffer st @ decode1 b"
  let ?st = "st\<lparr>buffer := ?buf, frames := frames st @ [?buf]\<rparr>"
  let ?ls = "split_nl (strip ?buf)"
  let ?ev = "List.map_filter (\<lambda>p. case loads p of Inl e \<Rightarrow> None | Inr v \<Rightarrow> Some v)
      (map (drop 6) (filter (\<lambda>l. startswith l ''data: '') ?ls))"
  obtain out st' where r: "for_lines loads ?ls ?st = (out, st')"
    by (cases "for_lines loads ?ls ?st")
  have i: "fst (sse_iter loads b st) = out"
    "decoded (snd (sse_iter loads b st)) = decoded st'"
    using assms r by (cases out; simp add: sse_iter_def Let_def)+
  from for_lines_decoded [of loads ?ls ?st] r
  have p: "prefix (decoded st') (decoded st @ ?ev)"
    and q: "out = Running \<longrightarrow> decoded st' = decoded st @ ?ev" by simp_all
  have "length (List.map_filter f xs) \<le> length xs" for f :: "string \<Rightarrow> json option" and xs
    unfolding List.map_filter_def using length_filter_le [of "\<lambda>x. f x \<noteq> None" xs] by simp
  then have "length ?ev \<le> length (map (drop 6) (filter (\<lambda>l. startswith l ''data: '') ?ls))" .
  then have n: "length (decoded st @ ?ev) \<le>
      length (decoded st) + length (filter (\<lambda>l. startswith l ''data: '') ?ls)" by simp
  have "length (decoded st') \<le> length (decoded st @ ?ev)"
    using p by (rule prefix_length_le)
  with n have m: "length (decoded st') \<le>
      length (decoded st) + length (filter (\<lambda>l. startswith l ''data: '') ?ls)" by linarith
  show ?thesis
    unfolding i using p q m process_line_other [of _ loads] by blast
qed

theorem C2_frame_amended_witness:
  "endswith (''data: 1\<newline>: note\<newline>data: 2\<newline>'' @ decode1 CHR 0x0A) ''\<newline>\<newline>''
   \<and> fst (sse_iter json_loads CHR 0x0A
        \<lparr>buffer = ''data: 1\<newline>: note\<newline>data: 2\<newline>'', sent = [], frames = [], decoded = []\<rparr>) = Running
   \<and> decoded (snd (sse_iter json_loads CHR 0x0A
        \<lparr>buffer = ''data: 1\<newline>: note\<newline>data: 2\<newline>'', sent = [], frames = [], decoded = []\<rparr>))
      = [JInt 1, JInt 2]"
proof -
  let ?st = "\<lparr>buffer = ''data: 1\<newline>: note\<newline>data: 2\<newline>'', sent = [], frames = [], decoded = []\<rparr>"
  have e: "endswith (buffer ?st @ decode1 CHR 0x0A) ''\<newline>\<newline>''" by code_simp
  have r: "fst (sse_iter json_loads CHR 0x0A ?st) = Running" by code_simp
  have v: "decoded ?st @ List.map_filter (\<lambda>p. case json_loads p of Inl e \<Rightarrow> None | Inr v \<Rightarrow> Some v)
      (map (drop 6) (filter (\<lambda>l. startswith l ''data: '') (split_nl (strip (buffer ?st @ decode1 CHR 0x0A)))))
      = [JInt 1, JInt 2]" by code_simp
  from C2_frame_amended [OF e, of json_loads] r
  have "decoded (snd (sse_iter json_loads CHR 0x0A ?st)) =
      decoded ?st @ List.map_filter (\<lambda>p. case json_loads p of Inl e \<Rightarrow> None | Inr v \<Rightarrow> Some v)
      (map (drop 6) (filter (\<lambda>l. startswith l ''data: '') (split_nl (strip (buffer ?st @ decode1 CHR 0x0A)))))"
    by blast
  then have "decoded (snd (sse_iter json_loads CHR 0x0A ?st)) = [JInt 1, JInt 2]"
    by (simp only: v)
  moreover have "endswith (''data: 1\<newline>: note\<newline>data: 2\<newline>'' @ decode1 CHR 0x0A) ''\<newline>\<newline>''"
    by code_simp
  ultimately show ?thesis using r by blast
qed

text \<open>
  C7, as stated, fails on the loop in two ways. The payload of a frame, the bytes after the
  prefix of its data lines taken together, can fail to parse while a data line parses by
  itself: in the first frame below the two payloads together are not JSON, yet the first line
  is a user message and is answered. And \<open>except json.JSONDecodeError\<close> catches that exception
  only: the payload of the second frame, an integer of 4301 digits, makes \<open>json.loads\<close>
  raise \<open>ValueError\<close>, which ends the run with the buffer not cleared.
\<close>

theorem C7_frame_dropped_counterexample:
  \<open>json_loads (''{"from":"user","text":"hi"}'' @ ''}'') = Inl JSONDecodeError
   \<and> listen_loop json_loads [''data: {"from":"user","text":"hi"}\<newline>data: }\<newline>\<newline>'']
        \<lparr>buffer = [], sent = [], frames = [], decoded = []\<rparr>
      = (Returned,
         \<lparr>buffer = [], sent = [PostMessage ''Received: hi'' None],
          frames = [''data: {"from":"user","text":"hi"}\<newline>data: }\<newline>\<newline>''],
          decoded = [JObj [(''from'', JStr ''user''), (''text'', JStr ''hi'')]]\<rparr>)
   \<and> json_loads (replicate 4301 CHR ''1'') = Inl ValueError
   \<and> sse_iter json_loads CHR 0x0A
        \<lparr>buffer = ''data: '' @ replicate 4301 CHR ''1'' @ ''\<newline>'', sent = [], frames = [], decoded = []\<rparr>
      = (Uncaught ValueError,
         \<lparr>buffer = ''data: '' @ replicate 4301 CHR ''1'' @ ''\<newline>\<newline>'', sent = [],
          frames = [''data: '' @ replicate 4301 CHR ''1'' @ ''\<newline>\<newline>''], decoded = []\<rparr>)\<close>
proof (intro conjI)
  show \<open>json_loads (''{"from":"user","text":"hi"}'' @ ''}'') = Inl JSONDecodeError\<close>
    by code_simp
  show \<open>listen_loop json_loads [''data: {"from":"user","text":"hi"}\<newline>data: }\<newline>\<newline>'']
        \<lparr>buffer = [], sent = [], frames = [], decoded = []\<rparr>
      = (Returned,
         \<lparr>buffer = [], sent = [PostMessage ''Received: hi'' None],
          frames = [''data: {"from":"user","text":"hi"}\<newline>data: }\<newline>\<newline>''],
          decoded = [JObj [(''from'', JStr ''user''), (''text'', JStr ''hi'')]]\<rparr>)\<close>
    by code_simp
  show "json_loads (replicate 4301 CHR ''1'') = Inl ValueError"
    by (rule json_loads_long_int)
  show "sse_iter json_loads CHR 0x0A
        \<lparr>buffer = ''data: '' @ replicate 4301 CHR ''1'' @ ''\<newline>'', sent = [], frames = [], decoded = []\<rparr>
      = (Uncaught ValueError,
         \<lparr>buffer = ''data: '' @ replicate 4301 CHR ''1'' @ ''\<newline>\<newline>'', sent = [],
          frames = [''data: '' @ replicate 4301 CHR ''1'' @ ''\<newline>\<newline>''], decoded = []\<rparr>)"
    by (rule sse_iter_long_int)
qed

text \<open>
  C7, amended: for every completed frame on each of whose data lines \<open>json.loads\<close> raises
  \<open>JSONDecodeError\<close> for the bytes after the prefix of that line, the frame is silently
  dropped: no reply is sent, no event is decoded, no exception ends the run, the buffer is
  cleared, and the loop goes on with the bytes that follow.
\<close>

theorem C7_frame_dropped_amended:
  assumes "endswith (buffer st @ decode1 b) ''\<newline>\<newline>''"
    and "\<forall>l \<in> set (split_nl (strip (buffer st @ decode1 b))).
           startswith l ''data: '' \<longrightarrow> loads (drop 6 l) = Inl JSONDecodeError"
  shows "sse_iter loads b st =
           (Running, st\<lparr>buffer := [], frames := frames st @ [buffer st @ decode1 b]\<rparr>)
       \<and> listen_loop loads ((b # bs) # resp) st =
           listen_loop loads (bs # resp) (st\<lparr>buffer := [], frames := frames st @ [buffer st @ decode1 b]\<rparr>)"
proof -
  have i: "sse_iter loads b st =
           (Running, st\<lparr>buffer := [], frames := frames st @ [buffer st @ decode1 b]\<rparr>)"
    using assms(1) by (simp add: sse_iter_def Let_def for_lines_all_fail [OF assms(2)])
  show ?thesis
    by (simp add: i listen_loop.simps [of loads "(b # bs) # resp"])
qed

theorem C7_frame_dropped_amended_witness:
  "sse_iter json_loads CHR 0x0A \<lparr>buffer = ''data: {oops\<newline>'', sent = [], frames = [], decoded = []\<rparr>
     = (Running, \<lparr>buffer = [], sent = [], frames = [''data: {oops\<newline>\<newline>''], decoded = []\<rparr>)
   \<and> listen_loop json_loads [''\<newline>data: 7\<newline>\<newline>''] \<lparr>buffer = ''data: {oops\<newline>'', sent = [], frames = [], decoded = []\<rparr>
     = (Returned, \<lparr>buffer = [], sent = [], frames = [''data: {oops\<newline>\<newline>'', ''data: 7\<newline>\<newline>''], decoded = [JInt 7]\<rparr>)"
proof -
  let ?st = "\<lparr>buffer = ''data: {oops\<newline>'', sent = [], frames = [], decoded = []\<rparr>"
  have e: "endswith (buffer ?st @ decode1 CHR 0x0A) ''\<newline>\<newline>''" by code_simp
  have l: "split_nl (strip (buffer ?st @ decode1 CHR 0x0A)) = [''data: {oops'']" by code_simp
  have n: "json_loads ''{oops'' = Inl JSONDecodeError" by code_simp
  have f: "\<forall>l \<in> set (split_nl (strip (buffer ?st @ decode1 CHR 0x0A))).
           startswith l ''data: '' \<longrightarrow> json_loads (drop 6 l) = Inl JSONDecodeError"
    unfolding l using n by simp
  have rest: "listen_loop json_loads [''data: 7\<newline>\<newline>''] \<lparr>buffer = [], sent = [], frames = [''data: {oops\<newline>\<newline>''], decoded = []\<rparr>
     = (Returned, \<lparr>buffer = [], sent = [], frames = [''data: {oops\<newline>\<newline>'', ''data: 7\<newline>\<newline>''], decoded = [JInt 7]\<rparr>)"
    by code_simp
  have d: "decode1 CHR 0x0A = [CHR 0x0A]" by code_simp
  from C7_frame_dropped_amended [OF e f, of "''data: 7\<newline>\<newline>''" "[]"] rest
  show ?thesis by (simp add: d)
qed

end
